theory Spec2Isabelle
  imports Main "HOL-Library.AList" "HOL-Library.Multiset"
begin

section \<open>The in-memory store (server/storage.ts, class MemStorage)\<close>

text \<open>
  A JavaScript \<^verbatim>\<open>Map\<close> keeps its entries in insertion order, and \<^verbatim>\<open>set\<close> on a key
  that is present replaces the value where it stands. It is modelled as an association
  list: \<^verbatim>\<open>m.get(k)\<close> is \<open>map_of m k\<close>, \<^verbatim>\<open>m.set(k, v)\<close> is \<open>AList.update k v m\<close>
  (replace in place, else append), \<^verbatim>\<open>m.delete(k)\<close> is \<open>AList.delete k m\<close> and
  \<^verbatim>\<open>Array.from(m.values())\<close> is \<open>map snd m\<close>.

  Identifiers are the numbers handed out by the three counters (unbounded naturals here;
  the counters of the source are doubles and stay exact far beyond any store that fits in
  memory). A \<^verbatim>\<open>Date\<close> is the integer \<^verbatim>\<open>getTime()\<close> returns; every \<^verbatim>\<open>new Date()\<close> of
  the source is a clock reading passed in as a parameter.
\<close>

record User =
  uid :: nat
  name :: string
  username :: string
  email :: string
  password :: string
  avatar :: "string option"
  createdAt :: int
  lastActive :: int
  isOnline :: bool

record InsertUser =
  name_in :: string
  username_in :: string
  email_in :: string
  password_in :: string
  avatar_in :: "string option"

record Message =
  mid :: nat
  content :: string
  senderId :: nat
  receiverId :: nat
  timestamp :: int
  read :: bool

text \<open>
  The fields of an \<^verbatim>\<open>InsertMessage\<close> that \<^verbatim>\<open>createMessage\<close> tests against
  \<^verbatim>\<open>undefined\<close> are options.
\<close>

record InsertMessage =
  content_in :: string
  senderId_in :: "nat option"
  receiverId_in :: "nat option"

record Conversation =
  cid :: nat
  user1Id :: nat
  user2Id :: nat
  lastMessageId :: nat
  updatedAt :: int

text \<open>
  What \<^verbatim>\<open>getConversations\<close> returns for one conversation: the spread of the record
  followed by the three computed fields.
\<close>

record ConversationEntry = Conversation +
  otherUser :: User
  lastMessage :: "Message option"
  unreadCount :: nat

record store =
  users :: "(nat \<times> User) list"
  messages :: "(nat \<times> Message) list"
  conversations :: "(nat \<times> Conversation) list"
  currentUserId :: nat
  currentMessageId :: nat
  currentConversationId :: nat

datatype error = Error string

definition new_store :: store where
  "new_store = \<lparr>users = [], messages = [], conversations = [],
     currentUserId = 1, currentMessageId = 1, currentConversationId = 1\<rparr>"

subsection \<open>User methods\<close>

definition getUser :: "store \<Rightarrow> nat \<Rightarrow> User option" where
  "getUser s i = map_of (users s) i"

text \<open>\<^verbatim>\<open>insertUser.avatar || null\<close>: a missing or empty avatar is stored as \<^verbatim>\<open>null\<close>.\<close>

definition createUser :: "store \<Rightarrow> int \<Rightarrow> InsertUser \<Rightarrow> store \<times> User" where
  "createUser s now insertUser =
     (let i = currentUserId s;
          user = \<lparr>uid = i, name = name_in insertUser, username = username_in insertUser,
                  email = email_in insertUser, password = password_in insertUser,
                  avatar = (if avatar_in insertUser = Some [] then None else avatar_in insertUser),
                  createdAt = now, lastActive = now, isOnline = True\<rparr>
      in (s\<lparr>users := AList.update i user (users s), currentUserId := i + 1\<rparr>, user))"

definition updateUserStatus :: "store \<Rightarrow> int \<Rightarrow> nat \<Rightarrow> bool \<Rightarrow> store" where
  "updateUserStatus s now userId online =
     (case getUser s userId of
        None \<Rightarrow> s
      | Some user \<Rightarrow>
          s\<lparr>users := AList.update userId (user\<lparr>isOnline := online, lastActive := now\<rparr>) (users s)\<rparr>)"

text \<open>
  A character is a UTF-16 code unit below 256, that is a code point of Latin-1; strings
  with other code units are outside the model. On these strings the two built-ins are
  exact. \<^verbatim>\<open>toLowerCase\<close> maps each cased character to its lower-case partner, which is
  32 further on: the letters A to Z, and the letters from U+00C0 to U+00DE other than the
  multiplication sign U+00D7; no other code point below 256 changes, and none of the
  context rules of the Unicode mapping applies below 256. \<^verbatim>\<open>trim\<close> strips white space
  and line terminators, of which seven lie below 256: tab, LF, VT, FF, CR, space and
  no-break space.
\<close>

definition toLowerCase_char :: "char \<Rightarrow> char" where
  "toLowerCase_char c =
     (let n = (of_char c :: nat)
      in if (65 \<le> n \<and> n \<le> 90) \<or> (192 \<le> n \<and> n \<le> 222 \<and> n \<noteq> 215)
         then char_of (n + 32) else c)"


definition isWhiteSpace :: "char \<Rightarrow> bool" where
  "isWhiteSpace c = ((of_char c :: nat) \<in> {9, 10, 11, 12, 13, 32, 160})"

definition trim :: "string \<Rightarrow> string" where
  "trim s = rev (dropWhile isWhiteSpace (rev (dropWhile isWhiteSpace s)))"




subsection \<open>Message methods\<close>



text \<open>The predicate shared by \<^verbatim>\<open>markMessagesAsRead\<close> and the unread count.\<close>

definition unread_from :: "nat \<Rightarrow> nat \<Rightarrow> Message \<Rightarrow> bool" where
  "unread_from userId otherUserId message =
     (senderId message = otherUserId \<and> receiverId message = userId \<and> \<not> read message)"

text \<open>What the marking does to one message object.\<close>

definition mark_one :: "nat \<Rightarrow> nat \<Rightarrow> Message \<Rightarrow> Message" where
  "mark_one userId otherUserId message =
     (if unread_from userId otherUserId message then message\<lparr>read := True\<rparr> else message)"

text \<open>
  \<^verbatim>\<open>markMessagesAsRead\<close> takes a snapshot of the matching messages and, for each, sets
  \<^verbatim>\<open>read\<close> on the object and stores it under \<^verbatim>\<open>message.id\<close>. The object is the one held
  by the map, so in a store where every message sits under its own id (\<open>store_ok\<close> below)
  the write to the object and the \<^verbatim>\<open>set\<close> are the same update.
\<close>

definition markMessagesAsRead :: "store \<Rightarrow> nat \<Rightarrow> nat \<Rightarrow> store" where
  "markMessagesAsRead s userId otherUserId =
     s\<lparr>messages :=
         foldl (\<lambda>ms message. AList.update (mid message) (message\<lparr>read := True\<rparr>) ms)
           (messages s)
           (filter (unread_from userId otherUserId) (map snd (messages s)))\<rparr>"

subsection \<open>Conversation methods\<close>

definition same_pair :: "nat \<Rightarrow> nat \<Rightarrow> 'a Conversation_scheme \<Rightarrow> bool" where
  "same_pair a b conv =
     ((user1Id conv = a \<and> user2Id conv = b) \<or> (user1Id conv = b \<and> user2Id conv = a))"

definition getConversation :: "store \<Rightarrow> nat \<Rightarrow> nat \<Rightarrow> Conversation option" where
  "getConversation s a b = find (same_pair a b) (map snd (conversations s))"

text \<open>
  The tests against \<^verbatim>\<open>undefined\<close> at the head of \<^verbatim>\<open>createOrUpdateConversation\<close> cannot
  fire on numbers; its only caller, \<^verbatim>\<open>createMessage\<close>, has made the same tests before.
\<close>

definition createOrUpdateConversation ::
  "store \<Rightarrow> int \<Rightarrow> nat \<Rightarrow> nat \<Rightarrow> nat \<Rightarrow> store \<times> Conversation" where
  "createOrUpdateConversation s now userId otherUserId messageId =
     (case getConversation s userId otherUserId of
        Some existingConversation \<Rightarrow>
          (let updatedConversation =
                 existingConversation\<lparr>lastMessageId := messageId, updatedAt := now\<rparr>
           in (s\<lparr>conversations :=
                   AList.update (cid existingConversation) updatedConversation (conversations s)\<rparr>,
               updatedConversation))
      | None \<Rightarrow>
          (let i = currentConversationId s;
               newConversation = \<lparr>cid = i, user1Id = userId, user2Id = otherUserId,
                                  lastMessageId = messageId, updatedAt = now\<rparr>
           in (s\<lparr>conversations := AList.update i newConversation (conversations s),
                  currentConversationId := i + 1\<rparr>,
               newConversation)))"

text \<open>
  \<^verbatim>\<open>createMessage\<close> takes its id before it tests the two fields, so a call that throws
  has still advanced the counter. The two clock readings are the message's timestamp and
  the conversation's \<^verbatim>\<open>updatedAt\<close>.
\<close>

definition createMessage ::
  "store \<Rightarrow> int \<Rightarrow> int \<Rightarrow> InsertMessage \<Rightarrow> store \<times> (error + Message)" where
  "createMessage s now now' insertMessage =
     (let i = currentMessageId s;
          s1 = s\<lparr>currentMessageId := i + 1\<rparr>
      in case (senderId_in insertMessage, receiverId_in insertMessage) of
           (Some sender, Some receiver) \<Rightarrow>
             (let message = \<lparr>mid = i, content = content_in insertMessage, senderId = sender,
                             receiverId = receiver, timestamp = now, read = False\<rparr>;
                  s2 = s1\<lparr>messages := AList.update i message (messages s1)\<rparr>
              in (fst (createOrUpdateConversation s2 now' sender receiver i), Inr message))
         | _ \<Rightarrow> (s1, Inl (Error ''senderId and receiverId must be defined'')))"

definition unread :: "store \<Rightarrow> nat \<Rightarrow> nat \<Rightarrow> nat" where
  "unread s userId otherUserId =
     length (filter (unread_from userId otherUserId) (map snd (messages s)))"

definition conversation_entry :: "store \<Rightarrow> nat \<Rightarrow> Conversation \<Rightarrow> ConversationEntry option" where
  "conversation_entry s userId conv =
     (let otherUserId = (if user1Id conv = userId then user2Id conv else user1Id conv)
      in case getUser s otherUserId of
           None \<Rightarrow> None
         | Some other \<Rightarrow>
             Some (Conversation.extend conv
               (ConversationEntry.fields other
                  (if lastMessageId conv = 0 then None
                   else map_of (messages s) (lastMessageId conv))
                  (unread s userId otherUserId))))"

definition getConversations :: "store \<Rightarrow> nat \<Rightarrow> ConversationEntry list" where
  "getConversations s userId =
     (let userConversations =
            filter (\<lambda>conv. user1Id conv = userId \<or> user2Id conv = userId)
              (map snd (conversations s))
      in sort_key (\<lambda>item. - updatedAt item)
           (List.map_filter (conversation_entry s userId) userConversations))"

subsection \<open>The read path of server/routes.ts\<close>



subsection \<open>Well-formed stores\<close>

text \<open>
  What the constructor establishes and every method keeps: each map has one entry per key,
  every record sits under its own id, the ids in use lie below the counter that hands out
  the next one, and no two conversation records are about the same unordered pair.
\<close>

definition messages_ok :: "store \<Rightarrow> bool" where
  "messages_ok s \<longleftrightarrow>
     distinct (map fst (messages s)) \<and>
     (\<forall>(k, m) \<in> set (messages s). mid m = k \<and> k < currentMessageId s)"

definition conversations_ok :: "store \<Rightarrow> bool" where
  "conversations_ok s \<longleftrightarrow>
     distinct (map fst (conversations s)) \<and>
     (\<forall>(k, c) \<in> set (conversations s). cid c = k \<and> k < currentConversationId s) \<and>
     (\<forall>(k, c) \<in> set (conversations s). \<forall>(k', c') \<in> set (conversations s).
        same_pair (user1Id c) (user2Id c) c' \<longrightarrow> k = k')"

definition store_ok :: "store \<Rightarrow> bool" where
  "store_ok s \<longleftrightarrow> messages_ok s \<and> conversations_ok s"

subsection \<open>A small store to evaluate on\<close>

text \<open>Two registered users, Alice (id 1) and Bob (id 2), and nothing else.\<close>

definition demo_alice :: InsertUser where
  "demo_alice = \<lparr>name_in = ''Alice Ames'', username_in = ''ALICE'',
     email_in = ''alice@example.org'', password_in = ''secret1'', avatar_in = None\<rparr>"

definition demo_bob :: InsertUser where
  "demo_bob = \<lparr>name_in = ''Bob'', username_in = ''bob'',
     email_in = ''bob@alice.example.org'', password_in = ''secret2'', avatar_in = None\<rparr>"

definition demo_store :: store where
  "demo_store = fst (createUser (fst (createUser new_store 1000 demo_alice)) 2000 demo_bob)"




text \<open>Alice writes to Bob, then Bob answers.\<close>

definition demo_sent :: store where
  "demo_sent = fst (createMessage demo_store 3000 3001
     \<lparr>content_in = ''hi'', senderId_in = Some 1, receiverId_in = Some 2\<rparr>)"

definition demo_answered :: store where
  "demo_answered = fst (createMessage demo_sent 4000 4001
     \<lparr>content_in = ''hello'', senderId_in = Some 2, receiverId_in = Some 1\<rparr>)"

section \<open>The realtime server (setupWebSocketServer)\<close>

text \<open>
  The annotations of the handler say that identities are strings, those of the store say
  numbers; both are erased at run time, where \<^verbatim>\<open>senderId\<close> and \<^verbatim>\<open>receiverId\<close> are what
  \<^verbatim>\<open>JSON.parse\<close> produced. An identity is therefore a number or a string. A \<^verbatim>\<open>Map\<close>
  compares keys without conversion, so a string is never found in the store's user map,
  and \<^verbatim>\<open>"1"\<close> and \<^verbatim>\<open>1\<close> are different keys of \<^verbatim>\<open>clients\<close>.
\<close>

datatype ident = Num nat | Str string

text \<open>\<^verbatim>\<open>if (ws.userId)\<close>: \<^verbatim>\<open>undefined\<close>, \<^verbatim>\<open>0\<close> and the empty string are falsy.\<close>

fun truthy :: "ident option \<Rightarrow> bool" where
  "truthy None = False"
| "truthy (Some (Num n)) = (n \<noteq> 0)"
| "truthy (Some (Str s)) = (s \<noteq> [])"

fun getUser_id :: "store \<Rightarrow> ident \<Rightarrow> User option" where
  "getUser_id s (Num n) = getUser s n"
| "getUser_id s (Str _) = None"

fun updateUserStatus_id :: "store \<Rightarrow> int \<Rightarrow> ident \<Rightarrow> bool \<Rightarrow> store" where
  "updateUserStatus_id s now (Num n) online = updateUserStatus s now n online"
| "updateUserStatus_id s now (Str _) online = s"

text \<open>
  The three frame types of the enumeration, and \<open>OTHER\<close> for any other value the field may
  hold (the client also sends image and video frames): the \<^verbatim>\<open>switch\<close> has no case for it.
\<close>

datatype MessageType = TEXT | TYPING | STATUS | OTHER

record WebSocketMessage =
  type_ws :: MessageType
  senderId_ws :: ident
  receiverId_ws :: ident
  content_ws :: "string option"
  timestamp_ws :: "string option"

text \<open>
  What a socket is sent: the inbound data handed on as it came, or the serialisation of a
  frame the server built.
\<close>

datatype payload = Verbatim string | Stringified WebSocketMessage

datatype readyState = CONNECTING | OPEN | CLOSING | CLOSED

text \<open>
  A connection is a handle (the identity of the socket object) into a table of socket
  states; \<open>sent\<close> records the payloads passed to \<^verbatim>\<open>send\<close>, oldest first.
\<close>

record AuthenticatedClient =
  userId :: "ident option"
  isAlive :: bool
  readyState :: readyState
  sent :: "payload list"

record server =
  clients :: "(ident \<times> nat) list"
  sockets :: "nat \<Rightarrow> AuthenticatedClient"
  wss_clients :: "nat list"
  storage :: store

definition new_socket :: AuthenticatedClient where
  "new_socket = \<lparr>userId = None, isAlive = True, readyState = OPEN, sent = []\<rparr>"

definition new_server :: "store \<Rightarrow> server" where
  "new_server s = \<lparr>clients = [], sockets = (\<lambda>_. new_socket), wss_clients = [], storage = s\<rparr>"

subsection \<open>The socket library\<close>

text \<open>
  \<^verbatim>\<open>send\<close> appends to what the socket was sent. \<^verbatim>\<open>close()\<close> and \<^verbatim>\<open>terminate()\<close> leave a
  closed socket alone and put any other into the closing state; the \<^verbatim>\<open>close\<close> event
  comes later, as an event of its own.
\<close>

definition send :: "server \<Rightarrow> nat \<Rightarrow> payload \<Rightarrow> server" where
  "send st ws p =
     st\<lparr>sockets := (sockets st)(ws := (sockets st ws)\<lparr>sent := sent (sockets st ws) @ [p]\<rparr>)\<rparr>"

definition close_socket :: "server \<Rightarrow> nat \<Rightarrow> server" where
  "close_socket st ws =
     (if readyState (sockets st ws) = CLOSED then st
      else st\<lparr>sockets := (sockets st)(ws := (sockets st ws)\<lparr>readyState := CLOSING\<rparr>)\<rparr>)"

definition on_connection :: "server \<Rightarrow> nat \<Rightarrow> server" where
  "on_connection st ws =
     st\<lparr>sockets := (sockets st)(ws := new_socket),
        wss_clients := removeAll ws (wss_clients st) @ [ws]\<rparr>"

subsection \<open>Inbound frames\<close>

text \<open>Forwarding to the recipient, as in the \<^verbatim>\<open>TEXT\<close> and \<^verbatim>\<open>TYPING\<close> cases.\<close>

definition forward :: "server \<Rightarrow> ident \<Rightarrow> payload \<Rightarrow> server" where
  "forward st receiver p =
     (case map_of (clients st) receiver of
        None \<Rightarrow> st
      | Some recipientWs \<Rightarrow>
          if readyState (sockets st recipientWs) = OPEN then send st recipientWs p else st)"

text \<open>The loop over \<^verbatim>\<open>clients.entries()\<close> of the \<^verbatim>\<open>STATUS\<close> case and of the close handler.\<close>

definition broadcast :: "server \<Rightarrow> ident \<Rightarrow> payload \<Rightarrow> server" where
  "broadcast st sender p =
     foldl (\<lambda>st (user, client).
              if user \<noteq> sender \<and> readyState (sockets st client) = OPEN then send st client p
              else st)
       st (clients st)"

text \<open>
  Lines 99 to 117: the socket takes the sender's identity, a different socket registered
  for it is closed, the socket is registered, and a status frame updates the stored flag.
\<close>

definition register :: "server \<Rightarrow> int \<Rightarrow> nat \<Rightarrow> WebSocketMessage \<Rightarrow> server" where
  "register st now ws message =
     (let u = senderId_ws message;
          st1 = st\<lparr>sockets := (sockets st)(ws := (sockets st ws)\<lparr>userId := Some u\<rparr>)\<rparr>;
          st2 = (case map_of (clients st1) u of
                   None \<Rightarrow> st1
                 | Some existingClient \<Rightarrow>
                     if existingClient \<noteq> ws then close_socket st1 existingClient else st1);
          st3 = st2\<lparr>clients := AList.update u ws (clients st2)\<rparr>
      in if type_ws message = STATUS
         then st3\<lparr>storage :=
                updateUserStatus_id (storage st3) now u (content_ws message = Some ''online'')\<rparr>
         else st3)"

definition process :: "server \<Rightarrow> string \<Rightarrow> WebSocketMessage \<Rightarrow> server" where
  "process st data message =
     (case type_ws message of
        TEXT \<Rightarrow> forward st (receiverId_ws message) (Verbatim data)
      | TYPING \<Rightarrow> forward st (receiverId_ws message) (Verbatim data)
      | STATUS \<Rightarrow> broadcast st (senderId_ws message) (Verbatim data)
      | OTHER \<Rightarrow> st)"

text \<open>
  The handler of \<^verbatim>\<open>message\<close>. \<open>parsed\<close> is the result of \<^verbatim>\<open>JSON.parse(data)\<close>, \<open>None\<close>
  when it throws (the \<^verbatim>\<open>catch\<close> logs and leaves everything as it was).

  The source handler is an async function. On a socket without identity a frame that is
  not a text frame suspends it at \<^verbatim>\<open>await storage.getUser\<close> (line 93), before
  \<^verbatim>\<open>ws.userId\<close> is set (line 99), and a status frame suspends it again at line 116; the
  close handler suspends at line 162. With the in-memory store every awaited promise is
  settled already, so a suspended handler has run to its end before the event loop
  dispatches the next event, and \<open>on_message\<close> and \<open>on_close\<close> are the whole handler as one
  step. This describes events dispatched in separate turns of the loop. It does not
  describe two frames of one socket that arrive in one chunk and are dispatched in the
  same turn: there both handlers pass the test of line 90 before either sets
  \<^verbatim>\<open>ws.userId\<close>.
\<close>

definition on_message ::
  "server \<Rightarrow> int \<Rightarrow> nat \<Rightarrow> string \<Rightarrow> WebSocketMessage option \<Rightarrow> server" where
  "on_message st now ws data parsed =
     (case parsed of
        None \<Rightarrow> st
      | Some message \<Rightarrow>
          if \<not> truthy (userId (sockets st ws)) \<and> type_ws message \<noteq> TEXT then
            (case getUser_id (storage st) (senderId_ws message) of
               None \<Rightarrow> st
             | Some user \<Rightarrow> process (register st now ws message) data message)
          else process st data message)"

subsection \<open>Disconnection and liveness\<close>

definition offlineMessage :: "ident \<Rightarrow> WebSocketMessage" where
  "offlineMessage u =
     \<lparr>type_ws = STATUS, senderId_ws = u, receiverId_ws = Str ''0'',
      content_ws = Some ''offline'', timestamp_ws = None\<rparr>"

text \<open>
  The \<^verbatim>\<open>close\<close> event: the library has marked the socket closed and dropped it from
  \<^verbatim>\<open>wss.clients\<close> when the handler runs.
\<close>

definition on_close :: "server \<Rightarrow> int \<Rightarrow> nat \<Rightarrow> server" where
  "on_close st now ws =
     (let st0 = st\<lparr>sockets := (sockets st)(ws := (sockets st ws)\<lparr>readyState := CLOSED\<rparr>),
                   wss_clients := removeAll ws (wss_clients st)\<rparr>
      in if truthy (userId (sockets st0 ws)) then
           (case userId (sockets st0 ws) of
              None \<Rightarrow> st0
            | Some u \<Rightarrow>
                (let st1 = st0\<lparr>storage := updateUserStatus_id (storage st0) now u False\<rparr>;
                     st2 = broadcast st1 u (Stringified (offlineMessage u))
                 in st2\<lparr>clients := AList.delete u (clients st2)\<rparr>))
         else st0)"

definition on_pong :: "server \<Rightarrow> nat \<Rightarrow> server" where
  "on_pong st ws = st\<lparr>sockets := (sockets st)(ws := (sockets st ws)\<lparr>isAlive := True\<rparr>)\<rparr>"

text \<open>The interval: a socket that has not answered the previous ping is terminated.\<close>

definition heartbeat :: "server \<Rightarrow> server" where
  "heartbeat st =
     foldl (\<lambda>st ws.
              if \<not> isAlive (sockets st ws) then close_socket st ws
              else st\<lparr>sockets := (sockets st)(ws := (sockets st ws)\<lparr>isAlive := False\<rparr>)\<rparr>)
       st (wss_clients st)"

text \<open>
  What has happened, in order, each event in a turn of the event loop of its own; the
  server starts from \<open>new_server\<close>.
\<close>

datatype event =
    Connection nat
  | Frame int nat string "WebSocketMessage option"
  | Close int nat
  | Pong nat
  | Heartbeat

fun step :: "server \<Rightarrow> event \<Rightarrow> server" where
  "step st (Connection ws) = on_connection st ws"
| "step st (Frame now ws data parsed) = on_message st now ws data parsed"
| "step st (Close now ws) = on_close st now ws"
| "step st (Pong ws) = on_pong st ws"
| "step st Heartbeat = heartbeat st"

definition run :: "server \<Rightarrow> event list \<Rightarrow> server" where
  "run st evs = foldl step st evs"

text \<open>
  A well-formed registry: an identity has one entry, it is truthy, and the socket
  registered for it carries it.
\<close>

definition registry_ok :: "server \<Rightarrow> bool" where
  "registry_ok st \<longleftrightarrow>
     distinct (map fst (clients st)) \<and>
     (\<forall>(u, c) \<in> set (clients st). userId (sockets st c) = Some u \<and> truthy (Some u))"

subsection \<open>Frames and runs to evaluate on\<close>

definition demo_online :: "nat \<Rightarrow> WebSocketMessage" where
  "demo_online u = \<lparr>type_ws = STATUS, senderId_ws = Num u, receiverId_ws = Str ''0'',
     content_ws = Some ''online'', timestamp_ws = None\<rparr>"

definition demo_typing :: "nat \<Rightarrow> nat \<Rightarrow> WebSocketMessage" where
  "demo_typing u v = \<lparr>type_ws = TYPING, senderId_ws = Num u, receiverId_ws = Num v,
     content_ws = Some ''typing'', timestamp_ws = None\<rparr>"

definition demo_text :: "nat \<Rightarrow> nat \<Rightarrow> WebSocketMessage" where
  "demo_text u v = \<lparr>type_ws = TEXT, senderId_ws = Num u, receiverId_ws = Num v,
     content_ws = Some ''hi'', timestamp_ws = None\<rparr>"

text \<open>Alice announces herself on socket 0 and Bob on socket 1.\<close>

definition both_online :: server where
  "both_online = run (new_server demo_store)
     [Connection 0, Frame 5000 0 ''alice online'' (Some (demo_online 1)),
      Connection 1, Frame 5001 1 ''bob online'' (Some (demo_online 2))]"

text \<open>Alice then logs in a second time, on socket 2; socket 0 is closed by the server.\<close>

definition second_login :: server where
  "second_login = run both_online
     [Connection 2, Frame 5002 2 ''alice online again'' (Some (demo_online 1))]"

text \<open>
  The close event of socket 0 arrives, and Alice logs in a third time, on socket 3.
\<close>

definition third_login :: server where
  "third_login = run second_login
     [Close 6000 0,
      Connection 3, Frame 6001 3 ''alice online, third time'' (Some (demo_online 1))]"

text \<open>
  Bob's socket misses a ping instead: after the second beat it is closing, and still
  registered until its \<^verbatim>\<open>close\<close> event arrives.
\<close>

definition bob_silent :: server where
  "bob_silent = run both_online [Heartbeat, Pong 0, Heartbeat]"

text \<open>A socket that has sent nothing yet, next to Bob who is online on socket 1.\<close>

definition bob_online :: server where
  "bob_online = run (new_server demo_store)
     [Connection 0, Connection 1, Frame 5001 1 ''bob online'' (Some (demo_online 2))]"

text \<open>The first frames of a list of sockets, as events, and the socket of each.\<close>

definition frame_socket :: "int \<times> nat \<times> string \<times> WebSocketMessage \<Rightarrow> nat" where
  "frame_socket x = fst (snd x)"

definition first_frames :: "(int \<times> nat \<times> string \<times> WebSocketMessage) list \<Rightarrow> event list" where
  "first_frames xs = map (\<lambda>(now, ws, data, message). Frame now ws data (Some message)) xs"

text \<open>
  Three more sockets open next to Alice's and Bob's, and each sends a first frame in
  Alice's name.
\<close>

definition more_sockets :: server where
  "more_sockets = run both_online [Connection 2, Connection 3, Connection 4]"

definition alice_logins :: "(int \<times> nat \<times> string \<times> WebSocketMessage) list" where
  "alice_logins =
     [(5002, 2, ''alice online again'', demo_online 1),
      (5003, 3, ''alice typing'', demo_typing 1 2),
      (5004, 4, ''alice online once more'', demo_online 1)]"

subsection \<open>Well-formed runs\<close>

text \<open>
  The library hands the handlers a new socket object at every connection and delivers
  frames only on sockets it has announced. No stored user has id 0: the counter starts
  at 1.
\<close>

fun event_ok :: "server \<Rightarrow> event \<Rightarrow> bool" where
  "event_ok st (Connection ws) = (ws \<notin> set (wss_clients st))"
| "event_ok st (Frame now ws data parsed) = (ws \<in> set (wss_clients st))"
| "event_ok st (Close now ws) = True"
| "event_ok st (Pong ws) = True"
| "event_ok st Heartbeat = True"

fun events_ok :: "server \<Rightarrow> event list \<Rightarrow> bool" where
  "events_ok st [] = True"
| "events_ok st (e # es) = (event_ok st e \<and> events_ok (step st e) es)"

definition server_ok :: "server \<Rightarrow> bool" where
  "server_ok st \<longleftrightarrow>
     registry_ok st \<and> getUser (storage st) 0 = None \<and>
     (\<forall>(u, c) \<in> set (clients st). c \<in> set (wss_clients st))"

section \<open>Properties of the store\<close>

subsection \<open>User search\<close>


text \<open>The case mapping at the ends of its ranges and just outside them.\<close>

lemma toLowerCase_samples:
  "map (\<lambda>n. of_char (toLowerCase_char (char_of n)))
     [64, 65, 90, 91, 97, 191, 192, 214, 215, 216, 222, 223, 224, 255 :: nat] =
     [64, 97, 122, 91, 97, 191, 224, 246, 215, 248, 254, 223, 224, 255 :: nat]"
  by (simp add: toLowerCase_char_def)






text \<open>
  \<open>trim\<close> removes a run of white space at either end and leaves a string that neither
  begins nor ends with white space.
\<close>

lemma trim_spec:
  "\<exists>pre suf. q = pre @ trim q @ suf \<and> list_all isWhiteSpace pre \<and> list_all isWhiteSpace suf"
  "trim q \<noteq> [] \<Longrightarrow> \<not> isWhiteSpace (hd (trim q)) \<and> \<not> isWhiteSpace (last (trim q))"
proof -
  let ?d = "dropWhile isWhiteSpace q"
  let ?e = "dropWhile isWhiteSpace (rev ?d)"
  have 1: "q = takeWhile isWhiteSpace q @ ?d" by simp
  have 2: "rev ?d = takeWhile isWhiteSpace (rev ?d) @ ?e" by simp
  then have "?d = rev ?e @ rev (takeWhile isWhiteSpace (rev ?d))"
    by (metis rev_append rev_rev_ident)
  with 1 have "q = takeWhile isWhiteSpace q @ trim q @ rev (takeWhile isWhiteSpace (rev ?d))"
    by (simp add: trim_def)
  moreover have "list_all isWhiteSpace (takeWhile isWhiteSpace q)"
    by (auto simp: list_all_iff dest: set_takeWhileD)
  moreover have "list_all isWhiteSpace (rev (takeWhile isWhiteSpace (rev ?d)))"
    by (auto simp: list_all_iff dest: set_takeWhileD)
  ultimately show "\<exists>pre suf. q = pre @ trim q @ suf \<and> list_all isWhiteSpace pre \<and>
      list_all isWhiteSpace suf"
    by blast
  assume ne: "trim q \<noteq> []"
  then have e: "?e \<noteq> []" by (simp add: trim_def)
  then have "\<not> isWhiteSpace (hd ?e)" by (rule hd_dropWhile)
  with e have l: "\<not> isWhiteSpace (last (trim q))" by (simp add: trim_def last_rev)
  have d: "?d \<noteq> []"
  proof
    assume "?d = []"
    then have "?e = []" by (simp only: rev.simps dropWhile.simps)
    with e show False by simp
  qed
  then have hd: "\<not> isWhiteSpace (hd ?d)" by (rule hd_dropWhile)
  from e have "last ?e = last (rev ?d)"
    by (metis 2 last_appendR)
  with d have "last ?e = hd ?d" by (simp add: last_rev)
  with e hd have "\<not> isWhiteSpace (hd (trim q))" by (simp add: trim_def hd_rev)
  with l show "\<not> isWhiteSpace (hd (trim q)) \<and> \<not> isWhiteSpace (last (trim q))" by simp
qed







subsection \<open>Association lists as maps\<close>

lemma update_fresh: "k \<notin> fst ` set al \<Longrightarrow> AList.update k v al = al @ [(k, v)]"
  by (induction al) auto

lemma update_present:
  "k \<in> fst ` set al \<Longrightarrow> distinct (map fst al) \<Longrightarrow>
   AList.update k v al = map (\<lambda>(k', v'). if k' = k then (k, v) else (k', v')) al"
proof (induction al)
  case Nil
  then show ?case by simp
next
  case (Cons p al)
  obtain k' v' where p: "p = (k', v')" by (cases p)
  show ?case
  proof (cases "k' = k")
    case True
    with Cons.prems p have "k \<notin> fst ` set al" by auto
    then have "map (\<lambda>(k', v'). if k' = k then (k, v) else (k', v')) al = al"
      by (induction al) auto
    with True p show ?thesis by simp
  next
    case False
    with Cons p show ?thesis by auto
  qed
qed

lemma update_member: "(k, v) \<in> set (AList.update k v al)"
  by (induction al) auto

lemma update_keys_present:
  "k \<in> fst ` set al \<Longrightarrow> map fst (AList.update k v al) = map fst al"
  by (induction al) auto

subsection \<open>Marking messages as read\<close>

lemma mark_fold:
  assumes "distinct (map fst (pre @ post))"
    and "\<forall>(k, m) \<in> set (pre @ post). mid m = k"
  shows "foldl (\<lambda>ms message. AList.update (mid message) (message\<lparr>read := True\<rparr>) ms)
           (map (\<lambda>(k, m). (k, mark_one u w m)) pre @ post)
           (filter (unread_from u w) (map snd post))
         = map (\<lambda>(k, m). (k, mark_one u w m)) (pre @ post)"
  using assms
proof (induction post arbitrary: pre)
  case Nil
  then show ?case by simp
next
  case (Cons p post)
  obtain k m where p: "p = (k, m)" by (cases p)
  let ?G = "\<lambda>(k, m). (k, mark_one u w m)"
  from Cons.prems p have km: "mid m = k" by simp
  from Cons.prems p have fresh: "k \<notin> fst ` set pre" by auto
  have d: "distinct (map fst ((pre @ [p]) @ post))" using Cons.prems(1) by simp
  have i: "\<forall>(k, m) \<in> set ((pre @ [p]) @ post). mid m = k" using Cons.prems(2) by simp
  have ih: "foldl (\<lambda>ms message. AList.update (mid message) (message\<lparr>read := True\<rparr>) ms)
           (map ?G (pre @ [p]) @ post) (filter (unread_from u w) (map snd post))
         = map ?G ((pre @ [p]) @ post)"
    using Cons.IH [OF d i] .
  show ?case
  proof (cases "unread_from u w m")
    case True
    have "k \<notin> fst ` set (map ?G pre)" using fresh by force
    then have "AList.update k (m\<lparr>read := True\<rparr>) (map ?G pre @ (k, m) # post)
        = map ?G pre @ (k, m\<lparr>read := True\<rparr>) # post"
      by (induction pre) auto
    with True p km ih show ?thesis by (simp add: mark_one_def)
  next
    case False
    with p ih show ?thesis by (simp add: mark_one_def)
  qed
qed

lemma messages_mark:
  assumes "messages_ok s"
  shows "messages (markMessagesAsRead s u w) = map (\<lambda>(k, m). (k, mark_one u w m)) (messages s)"
  using mark_fold [of "[]" "messages s" u w] assms
  by (simp add: markMessagesAsRead_def messages_ok_def case_prod_unfold)

lemma no_unread_after_mark: "\<not> unread_from u w (mark_one u w m)"
  by (simp add: mark_one_def unread_from_def)

lemma filter_unread_mark:
  "filter (unread_from u w) (map snd (map (\<lambda>(k, m). (k, mark_one u w m)) ms)) = []"
  by (induction ms) (auto simp: no_unread_after_mark)

lemma messages_ok_mark: "messages_ok s \<Longrightarrow> messages_ok (markMessagesAsRead s u w)"
proof -
  assume ok: "messages_ok s"
  have k: "map fst (map (\<lambda>(k, m). (k, mark_one u w m)) (messages s)) = map fst (messages s)"
    by (induction "messages s") (auto simp: case_prod_unfold)
  have c: "currentMessageId (markMessagesAsRead s u w) = currentMessageId s"
    by (simp add: markMessagesAsRead_def)
  have "mid (mark_one u w m) = mid m" for m by (simp add: mark_one_def)
  with ok show ?thesis
    unfolding messages_ok_def messages_mark [OF ok] k c by force
qed

lemma mark_twice:
  assumes "messages_ok s"
  shows "markMessagesAsRead (markMessagesAsRead s u w) u w = markMessagesAsRead s u w"
proof -
  let ?s = "markMessagesAsRead s u w"
  have "filter (unread_from u w) (map snd (messages ?s)) = []"
    by (simp only: messages_mark [OF assms] filter_unread_mark)
  then show ?thesis
    by (simp add: markMessagesAsRead_def [of ?s])
qed

subsection \<open>One conversation record per unordered pair\<close>

lemma same_pair_commute: "same_pair a b c = same_pair b a c"
  by (auto simp: same_pair_def)

lemma getConversation_Some:
  "getConversation s a b = Some c \<Longrightarrow> c \<in> snd ` set (conversations s) \<and> same_pair a b c"
  by (auto simp: getConversation_def find_Some_iff)

lemma getConversation_None:
  "getConversation s a b = None \<Longrightarrow> \<forall>c \<in> snd ` set (conversations s). \<not> same_pair a b c"
  by (auto simp: getConversation_def find_None_iff)

lemma getConversation_commute: "getConversation s a b = getConversation s b a"
proof -
  have "same_pair a b = (same_pair b a :: Conversation \<Rightarrow> bool)"
    by (rule ext) (rule same_pair_commute)
  then show ?thesis by (simp add: getConversation_def)
qed

lemma createOrUpdateConversation_keeps:
  "messages (fst (createOrUpdateConversation s now a b m)) = messages s"
  "users (fst (createOrUpdateConversation s now a b m)) = users s"
  "currentMessageId (fst (createOrUpdateConversation s now a b m)) = currentMessageId s"
  "currentUserId (fst (createOrUpdateConversation s now a b m)) = currentUserId s"
  by (simp_all add: createOrUpdateConversation_def Let_def split: option.split)

lemma createOrUpdateConversation_result:
  assumes "createOrUpdateConversation s now a b m = (s', c)"
  shows "same_pair a b c" and "(cid c, c) \<in> set (conversations s')"
    and "lastMessageId c = m" and "updatedAt c = now"
proof -
  show "same_pair a b c"
  proof (cases "getConversation s a b")
    case None
    with assms show ?thesis
      by (auto simp: createOrUpdateConversation_def Let_def same_pair_def)
  next
    case (Some e)
    then have "same_pair a b e" using getConversation_Some by blast
    with Some assms show ?thesis
      by (auto simp: createOrUpdateConversation_def Let_def same_pair_def)
  qed
  show "(cid c, c) \<in> set (conversations s')"
    using assms
    by (auto simp: createOrUpdateConversation_def Let_def update_member split: option.splits)
  show "lastMessageId c = m" "updatedAt c = now"
    using assms
    by (auto simp: createOrUpdateConversation_def Let_def split: option.splits)
qed

lemma conversations_ok_update:
  assumes ok: "conversations_ok s"
    and e: "(k, e) \<in> set (conversations s)"
    and c: "cid c = k" "user1Id c = user1Id e" "user2Id c = user2Id e"
  shows "conversations_ok (s\<lparr>conversations := AList.update k c (conversations s)\<rparr>)"
proof -
  let ?f = "\<lambda>(k', v'). if k' = k then (k, c) else (k', v')"
  from ok have d: "distinct (map fst (conversations s))" by (simp add: conversations_ok_def)
  from e have kin: "k \<in> fst ` set (conversations s)" by force
  have upd: "AList.update k c (conversations s) = map ?f (conversations s)"
    using update_present [OF kin d] .
  have keys: "map fst (map ?f (conversations s)) = map fst (conversations s)"
    by (induction "conversations s") (auto simp: case_prod_unfold)
  have corr: "\<exists>v. (k', v) \<in> set (conversations s) \<and> cid v' = cid v \<and>
      user1Id v' = user1Id v \<and> user2Id v' = user2Id v"
    if "(k', v') \<in> set (map ?f (conversations s))" for k' v'
  proof -
    from that obtain k0 v0 where o: "(k0, v0) \<in> set (conversations s)" "(k', v') = ?f (k0, v0)"
      by auto
    show ?thesis
    proof (cases "k0 = k")
      case True
      with o have "k' = k" "v' = c" by auto
      moreover from ok e have "cid e = k" by (auto simp: conversations_ok_def)
      ultimately show ?thesis using e c by auto
    next
      case False
      with o show ?thesis by auto
    qed
  qed
  have 1: "distinct (map fst (map ?f (conversations s)))" unfolding keys by (rule d)
  have 2: "\<forall>(k', v') \<in> set (map ?f (conversations s)). cid v' = k' \<and> k' < currentConversationId s"
  proof safe
    fix k' v' assume "(k', v') \<in> set (map ?f (conversations s))"
    from corr [OF this] obtain v where "(k', v) \<in> set (conversations s)" "cid v' = cid v" by blast
    with ok show "cid v' = k'" "k' < currentConversationId s"
      by (auto simp: conversations_ok_def)
  qed
  have 3: "\<forall>(k1, v1) \<in> set (map ?f (conversations s)). \<forall>(k2, v2) \<in> set (map ?f (conversations s)).
      same_pair (user1Id v1) (user2Id v1) v2 \<longrightarrow> k1 = k2"
  proof safe
    fix k1 v1 k2 v2
    assume a: "(k1, v1) \<in> set (map ?f (conversations s))" "(k2, v2) \<in> set (map ?f (conversations s))"
      and sp: "same_pair (user1Id v1) (user2Id v1) v2"
    from corr [OF a(1)] obtain w1 where w1: "(k1, w1) \<in> set (conversations s)"
      "user1Id v1 = user1Id w1" "user2Id v1 = user2Id w1" by blast
    from corr [OF a(2)] obtain w2 where w2: "(k2, w2) \<in> set (conversations s)"
      "user1Id v2 = user1Id w2" "user2Id v2 = user2Id w2" by blast
    from sp w1 w2 have "same_pair (user1Id w1) (user2Id w1) w2" by (simp add: same_pair_def)
    with ok w1(1) w2(1) show "k1 = k2" by (fastforce simp: conversations_ok_def)
  qed
  show ?thesis
    unfolding conversations_ok_def using 1 2 3 by (simp add: upd)
qed

lemma conversations_ok_insert:
  assumes ok: "conversations_ok s"
    and none: "\<forall>c \<in> snd ` set (conversations s). \<not> same_pair a b c"
  shows "conversations_ok
     (s\<lparr>conversations := AList.update (currentConversationId s)
           \<lparr>cid = currentConversationId s, user1Id = a, user2Id = b, lastMessageId = m, updatedAt = now\<rparr>
           (conversations s),
        currentConversationId := currentConversationId s + 1\<rparr>)"
proof -
  let ?i = "currentConversationId s"
  let ?n = "\<lparr>cid = ?i, user1Id = a, user2Id = b, lastMessageId = m, updatedAt = now\<rparr>"
  from ok have fresh: "?i \<notin> fst ` set (conversations s)"
    by (fastforce simp: conversations_ok_def)
  have upd: "AList.update ?i ?n (conversations s) = conversations s @ [(?i, ?n)]"
    using update_fresh [OF fresh] .
  have 1: "distinct (map fst (conversations s @ [(?i, ?n)]))"
    using ok fresh by (simp add: conversations_ok_def)
  have 2: "\<forall>(k, c) \<in> set (conversations s @ [(?i, ?n)]). cid c = k \<and> k < ?i + 1"
    using ok by (fastforce simp: conversations_ok_def)
  have 3: "\<forall>(k1, v1) \<in> set (conversations s @ [(?i, ?n)]). \<forall>(k2, v2) \<in> set (conversations s @ [(?i, ?n)]).
      same_pair (user1Id v1) (user2Id v1) v2 \<longrightarrow> k1 = k2"
  proof safe
    fix k1 v1 k2 v2
    assume a: "(k1, v1) \<in> set (conversations s @ [(?i, ?n)])" "(k2, v2) \<in> set (conversations s @ [(?i, ?n)])"
      and sp: "same_pair (user1Id v1) (user2Id v1) v2"
    consider "(k1, v1) \<in> set (conversations s)" "(k2, v2) \<in> set (conversations s)"
      | "(k1, v1) = (?i, ?n)" "(k2, v2) \<in> set (conversations s)"
      | "(k1, v1) \<in> set (conversations s)" "(k2, v2) = (?i, ?n)"
      | "(k1, v1) = (?i, ?n)" "(k2, v2) = (?i, ?n)"
      using a by auto
    then show "k1 = k2"
    proof cases
      case 1
      with ok sp show ?thesis by (fastforce simp: conversations_ok_def)
    next
      case 2
      with sp have "same_pair a b v2" by simp
      with none 2 show ?thesis by force
    next
      case 3
      with sp have "same_pair a b v1" by (auto simp: same_pair_def)
      with none 3 show ?thesis by force
    next
      case 4
      then show ?thesis by simp
    qed
  qed
  show ?thesis
    unfolding conversations_ok_def using 1 2 3 by (simp add: upd)
qed

lemma createOrUpdateConversation_ok:
  assumes "conversations_ok s"
  shows "conversations_ok (fst (createOrUpdateConversation s now a b m))"
proof (cases "getConversation s a b")
  case None
  from conversations_ok_insert [OF assms getConversation_None [OF None]] None
  show ?thesis by (simp add: createOrUpdateConversation_def Let_def)
next
  case (Some e)
  then obtain k where k: "(k, e) \<in> set (conversations s)"
    using getConversation_Some by fastforce
  with assms have ke: "cid e = k" by (auto simp: conversations_ok_def)
  have "conversations_ok (s\<lparr>conversations :=
      AList.update k (e\<lparr>lastMessageId := m, updatedAt := now\<rparr>) (conversations s)\<rparr>)"
    by (rule conversations_ok_update [OF assms k]) (simp_all add: ke)
  with Some ke show ?thesis by (simp add: createOrUpdateConversation_def Let_def)
qed

lemma createOrUpdateConversation_existing:
  assumes "getConversation s a b = Some e" and "conversations_ok s"
  shows "map fst (conversations (fst (createOrUpdateConversation s now a b m))) = map fst (conversations s)"
    and "currentConversationId (fst (createOrUpdateConversation s now a b m)) = currentConversationId s"
    and "cid (snd (createOrUpdateConversation s now a b m)) = cid e"
proof -
  from assms obtain k where k: "(k, e) \<in> set (conversations s)"
    using getConversation_Some by fastforce
  with assms have ke: "cid e = k" by (auto simp: conversations_ok_def)
  from k have "k \<in> fst ` set (conversations s)" by force
  from update_keys_present [OF this] assms(1) ke
  show "map fst (conversations (fst (createOrUpdateConversation s now a b m))) = map fst (conversations s)"
    by (simp add: createOrUpdateConversation_def Let_def)
  show "currentConversationId (fst (createOrUpdateConversation s now a b m)) = currentConversationId s"
    and "cid (snd (createOrUpdateConversation s now a b m)) = cid e"
    using assms(1) by (simp_all add: createOrUpdateConversation_def Let_def)
qed

lemma one_record_per_pair:
  assumes "conversations_ok s"
  shows "length (filter (same_pair a b) (map snd (conversations s))) \<le> 1"
proof -
  have "distinct (map fst cs) \<Longrightarrow>
        (\<forall>(k, c) \<in> set cs. \<forall>(k', c') \<in> set cs. same_pair (user1Id c) (user2Id c) c' \<longrightarrow> k = k') \<Longrightarrow>
        length (filter (same_pair a b) (map snd cs)) \<le> 1" for cs :: "(nat \<times> Conversation) list"
  proof (induction cs)
    case Nil
    then show ?case by simp
  next
    case (Cons p cs)
    obtain k c where p: "p = (k, c)" by (cases p)
    have "distinct (map fst cs)" using Cons.prems(1) by simp
    moreover have "\<forall>(k, c) \<in> set cs. \<forall>(k', c') \<in> set cs.
        same_pair (user1Id c) (user2Id c) c' \<longrightarrow> k = k'"
      using Cons.prems(2) by (simp add: case_prod_unfold)
    ultimately have ih: "length (filter (same_pair a b) (map snd cs)) \<le> 1"
      by (rule Cons.IH)
    show ?case
    proof (cases "same_pair a b c")
      case False
      with p ih show ?thesis by simp
    next
      case True
      have "\<not> same_pair a b c'" if "(k', c') \<in> set cs" for k' c'
      proof
        assume "same_pair a b c'"
        with True have "same_pair (user1Id c) (user2Id c) c'" by (auto simp: same_pair_def)
        with Cons.prems(2) p that have "k = k'" by auto
        with Cons.prems(1) p that show False by force
      qed
      then have "filter (same_pair a b) (map snd cs) = []"
        by (auto simp: filter_empty_conv)
      with True p show ?thesis by simp
    qed
  qed
  with assms show ?thesis by (simp add: conversations_ok_def)
qed

subsection \<open>Creating messages and listing conversations\<close>

lemma entry_fields:
  assumes "conversation_entry s u conv = Some e"
  shows "cid e = cid conv" "user1Id e = user1Id conv" "user2Id e = user2Id conv"
    "lastMessageId e = lastMessageId conv" "updatedAt e = updatedAt conv"
    "getUser s (if user1Id conv = u then user2Id conv else user1Id conv) = Some (otherUser e)"
    "unreadCount e = unread s u (if user1Id conv = u then user2Id conv else user1Id conv)"
  using assms
  by (auto simp: conversation_entry_def Let_def Conversation.defs ConversationEntry.defs
      split: option.splits)

lemma set_map_filter: "set (List.map_filter g xs) = {y. \<exists>x \<in> set xs. g x = Some y}"
  by (induction xs) (auto split: option.splits)

lemma set_getConversations:
  "set (getConversations s u) =
     {e. \<exists>conv \<in> snd ` set (conversations s).
           (user1Id conv = u \<or> user2Id conv = u) \<and> conversation_entry s u conv = Some e}"
  by (auto simp: getConversations_def Let_def set_map_filter)

lemma other_of_pair:
  "same_pair a b conv \<Longrightarrow> (if user1Id conv = b then user2Id conv else user1Id conv) = a"
  by (auto simp: same_pair_def)

lemma createMessage_Some:
  "createMessage s t t' \<lparr>content_in = c, senderId_in = Some a, receiverId_in = Some b\<rparr> =
     (fst (createOrUpdateConversation
        (s\<lparr>currentMessageId := currentMessageId s + 1,
           messages := AList.update (currentMessageId s)
             \<lparr>mid = currentMessageId s, content = c, senderId = a, receiverId = b,
               timestamp = t, read = False\<rparr> (messages s)\<rparr>)
        t' a b (currentMessageId s)),
      Inr \<lparr>mid = currentMessageId s, content = c, senderId = a, receiverId = b,
               timestamp = t, read = False\<rparr>)"
  by (simp add: createMessage_def Let_def)

lemma messages_ok_createMessage:
  assumes "messages_ok s"
  shows "messages_ok (fst (createMessage s t t' im))"
proof -
  let ?i = "currentMessageId s"
  have bump: "messages_ok (s\<lparr>currentMessageId := ?i + 1\<rparr>)"
    using assms by (fastforce simp: messages_ok_def)
  show ?thesis
  proof (cases "senderId_in im")
    case None
    with bump show ?thesis by (simp add: createMessage_def Let_def)
  next
    case sa: (Some a)
    show ?thesis
    proof (cases "receiverId_in im")
      case None
      with sa bump show ?thesis by (simp add: createMessage_def Let_def)
    next
      case (Some b)
      let ?m = "\<lparr>mid = ?i, content = content_in im, senderId = a, receiverId = b,
                  timestamp = t, read = False\<rparr>"
      from assms have fresh: "?i \<notin> fst ` set (messages s)"
        by (fastforce simp: messages_ok_def)
      have "messages_ok (s\<lparr>currentMessageId := ?i + 1, messages := messages s @ [(?i, ?m)]\<rparr>)"
        using assms fresh by (fastforce simp: messages_ok_def)
      then have "messages_ok (fst (createOrUpdateConversation
          (s\<lparr>currentMessageId := ?i + 1, messages := AList.update ?i ?m (messages s)\<rparr>) t' a b ?i))"
        by (simp add: messages_ok_def createOrUpdateConversation_keeps update_fresh [OF fresh])
      with sa Some show ?thesis by (simp add: createMessage_def Let_def)
    qed
  qed
qed

lemma conversations_ok_createMessage:
  assumes "conversations_ok s"
  shows "conversations_ok (fst (createMessage s t t' im))"
proof -
  have frame: "conversations_ok (s\<lparr>currentMessageId := i, messages := ms\<rparr>)" for i ms
    using assms by (simp add: conversations_ok_def)
  have frame': "conversations_ok (s\<lparr>currentMessageId := i\<rparr>)" for i
    using assms by (simp add: conversations_ok_def)
  show ?thesis
    using createOrUpdateConversation_ok [OF frame] frame'
    by (simp add: createMessage_def Let_def split: option.split)
qed

lemma store_ok_createMessage: "store_ok s \<Longrightarrow> store_ok (fst (createMessage s t t' im))"
  by (simp add: store_ok_def messages_ok_createMessage conversations_ok_createMessage)

lemma store_ok_new: "store_ok new_store"
  by (simp add: store_ok_def messages_ok_def conversations_ok_def new_store_def)

lemma store_ok_mark: "store_ok s \<Longrightarrow> store_ok (markMessagesAsRead s u w)"
  by (simp add: store_ok_def messages_ok_mark) (simp add: conversations_ok_def markMessagesAsRead_def)

lemma store_ok_users: "store_ok (s\<lparr>users := us, currentUserId := i\<rparr>) = store_ok s"
  by (simp add: store_ok_def messages_ok_def conversations_ok_def)

lemma store_ok_createUser: "store_ok s \<Longrightarrow> store_ok (fst (createUser s now iu))"
  by (simp add: createUser_def Let_def store_ok_def messages_ok_def conversations_ok_def)

lemma store_ok_updateUserStatus: "store_ok s \<Longrightarrow> store_ok (updateUserStatus s now u b)"
  by (simp add: updateUserStatus_def store_ok_def messages_ok_def conversations_ok_def
      split: option.split)

lemma createMessage_effect:
  assumes "createMessage s t t' \<lparr>content_in = c, senderId_in = Some a, receiverId_in = Some b\<rparr> = (s1, r)"
  shows "users s1 = users s"
    and "messages s1 = AList.update (currentMessageId s)
             \<lparr>mid = currentMessageId s, content = c, senderId = a, receiverId = b,
               timestamp = t, read = False\<rparr> (messages s)"
    and "currentMessageId s1 = currentMessageId s + 1"
    and "\<exists>conv. (cid conv, conv) \<in> set (conversations s1) \<and> same_pair a b conv \<and>
           lastMessageId conv = currentMessageId s"
proof -
  let ?s2 = "s\<lparr>currentMessageId := currentMessageId s + 1,
           messages := AList.update (currentMessageId s)
             \<lparr>mid = currentMessageId s, content = c, senderId = a, receiverId = b,
               timestamp = t, read = False\<rparr> (messages s)\<rparr>"
  from assms have s1: "s1 = fst (createOrUpdateConversation ?s2 t' a b (currentMessageId s))"
    by (simp add: createMessage_Some)
  show "users s1 = users s" 
    and "messages s1 = AList.update (currentMessageId s)
             \<lparr>mid = currentMessageId s, content = c, senderId = a, receiverId = b,
               timestamp = t, read = False\<rparr> (messages s)"
    and "currentMessageId s1 = currentMessageId s + 1"
    by (simp_all add: s1 createOrUpdateConversation_keeps)
  obtain s' conv where r: "createOrUpdateConversation ?s2 t' a b (currentMessageId s) = (s', conv)"
    by (cases "createOrUpdateConversation ?s2 t' a b (currentMessageId s)")
  with s1 have "s' = s1" by simp
  with createOrUpdateConversation_result [OF r]
  show "\<exists>conv. (cid conv, conv) \<in> set (conversations s1) \<and> same_pair a b conv \<and>
           lastMessageId conv = currentMessageId s"
    by blast
qed

lemma unread_after_createMessage:
  assumes "createMessage s t t' \<lparr>content_in = c, senderId_in = Some a, receiverId_in = Some b\<rparr> = (s1, r)"
  shows "1 \<le> unread s1 b a"
proof -
  let ?m = "\<lparr>mid = currentMessageId s, content = c, senderId = a, receiverId = b,
               timestamp = t, read = False\<rparr>"
  have "?m \<in> set (map snd (messages s1))"
    using update_member [of "currentMessageId s" ?m "messages s"]
    by (simp add: createMessage_effect(2) [OF assms]) force
  moreover have "unread_from b a ?m" by (simp add: unread_from_def)
  ultimately have "filter (unread_from b a) (map snd (messages s1)) \<noteq> []"
    by (simp only: filter_empty_conv) blast
  then show ?thesis
    by (cases "filter (unread_from b a) (map snd (messages s1))") (simp_all add: unread_def)
qed

lemma unread_after_mark:
  assumes "messages_ok s"
  shows "unread (markMessagesAsRead s u w) u w = 0"
  by (simp only: unread_def messages_mark [OF assms] filter_unread_mark list.size)

subsection \<open>Orientation-independent lookup\<close>

text \<open>
  Claim C5. At most one conversation record exists per unordered pair of users. In a store
  whose conversation map is well formed, recording a message from \<open>a\<close> to \<open>b\<close> and then
  one from \<open>b\<close> to \<open>a\<close> leaves exactly one record for the pair: the second call adds no
  record, the lookup finds the same record in either orientation, and that record now
  points at the second message.
\<close>

theorem conversation_orientation_independent:
  assumes ok: "conversations_ok s"
    and s1: "s1 = fst (createMessage s t1 t1'
               \<lparr>content_in = c1, senderId_in = Some a, receiverId_in = Some b\<rparr>)"
    and s2: "s2 = fst (createMessage s1 t2 t2'
               \<lparr>content_in = c2, senderId_in = Some b, receiverId_in = Some a\<rparr>)"
  shows "length (filter (same_pair a b) (map snd (conversations s1))) = 1 \<and>
         length (filter (same_pair a b) (map snd (conversations s2))) = 1 \<and>
         map fst (conversations s2) = map fst (conversations s1) \<and>
         currentConversationId s2 = currentConversationId s1 \<and>
         (\<exists>x y. getConversation s1 a b = Some x \<and> getConversation s2 a b = Some y \<and>
                getConversation s2 b a = Some y \<and> cid y = cid x \<and>
                lastMessageId x = currentMessageId s \<and> lastMessageId y = currentMessageId s1) \<and>
         conversations_ok s2"
proof -
  have ok1: "conversations_ok s1" unfolding s1 by (rule conversations_ok_createMessage [OF ok])
  have ok2: "conversations_ok s2" unfolding s2 by (rule conversations_ok_createMessage [OF ok1])
  have one: "length (filter (same_pair a b) (map snd (conversations z))) = 1"
    if "conversations_ok z" "(k, conv) \<in> set (conversations z)" "same_pair a b conv" for z k conv
  proof -
    from that(2,3) have "filter (same_pair a b) (map snd (conversations z)) \<noteq> []"
      by (simp only: filter_empty_conv) force
    then have "1 \<le> length (filter (same_pair a b) (map snd (conversations z)))"
      by (cases "filter (same_pair a b) (map snd (conversations z))") simp_all
    with one_record_per_pair [OF that(1), of a b] show ?thesis by simp
  qed
  have found: "\<exists>x. getConversation z a b = Some x \<and> cid x = k \<and> (k, x) \<in> set (conversations z)
                  \<and> lastMessageId x = lastMessageId conv"
    if "conversations_ok z" "(k, conv) \<in> set (conversations z)" "same_pair a b conv" for z k conv
  proof (cases "getConversation z a b")
    case None
    from getConversation_None [OF None] that(2,3) show ?thesis by force
  next
    case (Some x)
    from getConversation_Some [OF Some] obtain k' where x: "(k', x) \<in> set (conversations z)"
      "same_pair a b x" by fastforce
    from that(3) x(2) have "same_pair (user1Id conv) (user2Id conv) x"
      by (auto simp: same_pair_def)
    with that(1,2) x(1) have "k = k'" by (fastforce simp: conversations_ok_def)
    moreover from that(1) have "distinct (map fst (conversations z))"
      by (simp add: conversations_ok_def)
    ultimately have "x = conv" using that(2) x(1) by (metis eq_key_imp_eq_value)
    moreover from that(1) x(1) have "cid x = k'" by (auto simp: conversations_ok_def)
    ultimately show ?thesis using Some \<open>k = k'\<close> that(2) by simp
  qed
  obtain r1 where r1: "createMessage s t1 t1'
      \<lparr>content_in = c1, senderId_in = Some a, receiverId_in = Some b\<rparr> = (s1, r1)"
    using s1 by (metis prod.collapse)
  obtain r2 where r2: "createMessage s1 t2 t2'
      \<lparr>content_in = c2, senderId_in = Some b, receiverId_in = Some a\<rparr> = (s2, r2)"
    using s2 by (metis prod.collapse)
  from createMessage_effect(4) [OF r1] obtain x where
    x: "(cid x, x) \<in> set (conversations s1)" "same_pair a b x" "lastMessageId x = currentMessageId s"
    by blast
  from createMessage_effect(4) [OF r2] obtain y where
    y: "(cid y, y) \<in> set (conversations s2)" "same_pair a b y" "lastMessageId y = currentMessageId s1"
    by (auto simp: same_pair_commute [of b a])
  from found [OF ok1 x(1,2)] x(3) obtain x' where
    x': "getConversation s1 a b = Some x'" "cid x' = cid x" "lastMessageId x' = currentMessageId s"
    by auto
  from found [OF ok2 y(1,2)] y(3) obtain y' where
    y': "getConversation s2 a b = Some y'" "cid y' = cid y" "lastMessageId y' = currentMessageId s1"
    "(cid y, y') \<in> set (conversations s2)"
    by auto
  let ?m = "\<lparr>mid = currentMessageId s1, content = c2, senderId = b, receiverId = a,
             timestamp = t2, read = False\<rparr>"
  let ?z = "s1\<lparr>currentMessageId := currentMessageId s1 + 1,
              messages := AList.update (currentMessageId s1) ?m (messages s1)\<rparr>"
  have okz: "conversations_ok ?z" using ok1 by (simp add: conversations_ok_def)
  have "getConversation ?z b a = getConversation s1 b a"
    by (simp add: getConversation_def)
  then have gz: "getConversation ?z b a = Some x'"
    using x'(1) by (simp only: getConversation_commute [of s1 b a])
  have s2z: "s2 = fst (createOrUpdateConversation ?z t2' b a (currentMessageId s1))"
    unfolding s2 by (simp add: createMessage_Some)
  have keys: "map fst (conversations s2) = map fst (conversations s1)"
    and counter: "currentConversationId s2 = currentConversationId s1"
    using createOrUpdateConversation_existing(1,2) [OF gz okz] by (simp_all add: s2z)
  have same: "cid y' = cid x'"
  proof -
    obtain z' conv where cc: "createOrUpdateConversation ?z t2' b a (currentMessageId s1) = (z', conv)"
      by (metis prod.collapse)
    with s2z have z': "z' = s2" by simp
    from createOrUpdateConversation_result [OF cc] z'
    have in2: "(cid conv, conv) \<in> set (conversations s2)" "same_pair a b conv"
      by (auto simp: same_pair_commute [of b a])
    from createOrUpdateConversation_existing(3) [OF gz okz, of t2' "currentMessageId s1"] cc
    have "cid conv = cid x'" by simp
    moreover from found [OF ok2 in2] y'(1) have "cid y' = cid conv" by auto
    ultimately show ?thesis by simp
  qed
  have "getConversation s2 b a = Some y'"
    using y'(1) by (simp add: getConversation_commute)
  with one [OF ok1 x(1,2)] one [OF ok2 y(1,2)] keys counter x' y' same ok2
  show ?thesis by simp
qed

theorem conversation_orientation_independent_witness:
  "conversations_ok demo_store \<and>
   length (filter (same_pair 1 2) (map snd (conversations demo_sent))) = 1 \<and>
   length (filter (same_pair 1 2) (map snd (conversations demo_answered))) = 1 \<and>
   map fst (conversations demo_answered) = map fst (conversations demo_sent) \<and>
   map fst (conversations demo_answered) = [1] \<and>
   map lastMessageId (map snd (conversations demo_answered)) = [2] \<and>
   conversations_ok demo_answered"
proof -
  have ok: "conversations_ok demo_store" by code_simp
  have keys: "map fst (conversations demo_answered) = [1]" by code_simp
  have last: "map lastMessageId (map snd (conversations demo_answered)) = [2]" by code_simp
  from conversation_orientation_independent [OF ok demo_sent_def demo_answered_def] ok keys last
  show ?thesis by blast
qed

subsection \<open>Unread counts in the conversation listing\<close>

lemma listing_for_pair:
  assumes "(k, conv) \<in> set (conversations z)" and "same_pair a b conv" and "getUser z a = Some ua"
  shows "\<exists>e \<in> set (getConversations z b).
           same_pair a b e \<and> cid e = cid conv \<and> otherUser e = ua \<and> unreadCount e = unread z b a"
proof -
  have other: "(if user1Id conv = b then user2Id conv else user1Id conv) = a"
    by (rule other_of_pair [OF assms(2)])
  with assms(3) obtain e where e: "conversation_entry z b conv = Some e"
    by (simp add: conversation_entry_def Let_def)
  from assms(2) have "user1Id conv = b \<or> user2Id conv = b" by (auto simp: same_pair_def)
  with assms(1) e have "e \<in> set (getConversations z b)"
    by (force simp: set_getConversations)
  moreover from entry_fields [OF e] assms(2,3) other
  have "same_pair a b e" "cid e = cid conv" "otherUser e = ua" "unreadCount e = unread z b a"
    by (simp_all add: same_pair_def)
  ultimately show ?thesis by blast
qed

lemma listing_count:
  assumes "e \<in> set (getConversations z b)" and "same_pair a b e"
  shows "unreadCount e = unread z b a"
proof -
  from assms(1) obtain conv where c: "conversation_entry z b conv = Some e"
    by (auto simp: set_getConversations)
  from entry_fields [OF c] assms(2) have "same_pair a b conv" by (simp add: same_pair_def)
  from other_of_pair [OF this] entry_fields(7) [OF c] show ?thesis by simp
qed

lemma unread_createMessage_mono:
  assumes "messages_ok z"
  shows "unread z v w \<le> unread (fst (createMessage z t t' im)) v w"
proof -
  from assms have fresh: "currentMessageId z \<notin> fst ` set (messages z)"
    by (fastforce simp: messages_ok_def)
  show ?thesis
    by (simp add: createMessage_def Let_def unread_def createOrUpdateConversation_keeps
        update_fresh [OF fresh] split: option.split)
qed

text \<open>
  Claim C6. After \<^verbatim>\<open>createMessage\<close> with sender \<open>a\<close> (a stored user) and receiver \<open>b\<close>,
  the listing for \<open>b\<close> has an entry for the conversation of the pair, and every such entry
  reports an unread count of at least 1; the count of unread messages from \<open>a\<close> to \<open>b\<close>
  stays at least 1 when a further message is created. After \<^verbatim>\<open>markMessagesAsRead(b, a)\<close>
  the listing reports exactly 0.
\<close>

theorem unread_count_invariant:
  assumes ok: "store_ok s" and ua: "getUser s a = Some ua"
    and cm: "createMessage s t t'
               \<lparr>content_in = c, senderId_in = Some a, receiverId_in = Some b\<rparr> = (s1, r)"
  shows "(\<exists>e \<in> set (getConversations s1 b). same_pair a b e \<and> otherUser e = ua \<and> 1 \<le> unreadCount e) \<and>
         (\<forall>e \<in> set (getConversations s1 b). same_pair a b e \<longrightarrow> 1 \<le> unreadCount e) \<and>
         (\<forall>t2 t2' im. 1 \<le> unread (fst (createMessage s1 t2 t2' im)) b a) \<and>
         (\<exists>e \<in> set (getConversations (markMessagesAsRead s1 b a) b).
            same_pair a b e \<and> otherUser e = ua \<and> unreadCount e = 0) \<and>
         (\<forall>e \<in> set (getConversations (markMessagesAsRead s1 b a) b).
            same_pair a b e \<longrightarrow> unreadCount e = 0)"
proof -
  let ?s2 = "markMessagesAsRead s1 b a"
  from cm have s1: "s1 = fst (createMessage s t t'
      \<lparr>content_in = c, senderId_in = Some a, receiverId_in = Some b\<rparr>)" by simp
  from ok have mok1: "messages_ok s1"
    unfolding s1 by (simp add: store_ok_def messages_ok_createMessage)
  from createMessage_effect(4) [OF cm] obtain conv where
    conv: "(cid conv, conv) \<in> set (conversations s1)" "same_pair a b conv" by blast
  have ua1: "getUser s1 a = Some ua"
    using ua by (simp add: getUser_def createMessage_effect(1) [OF cm])
  have n1: "1 \<le> unread s1 b a" by (rule unread_after_createMessage [OF cm])
  have n2: "unread ?s2 b a = 0" by (rule unread_after_mark [OF mok1])
  have conv2: "(cid conv, conv) \<in> set (conversations ?s2)" and ua2: "getUser ?s2 a = Some ua"
    using conv(1) ua1 by (simp_all add: markMessagesAsRead_def getUser_def)
  have 1: "\<exists>e \<in> set (getConversations s1 b). same_pair a b e \<and> otherUser e = ua \<and> 1 \<le> unreadCount e"
    using listing_for_pair [OF conv ua1] n1 by auto
  have 2: "\<forall>e \<in> set (getConversations s1 b). same_pair a b e \<longrightarrow> 1 \<le> unreadCount e"
    using listing_count [of _ s1 b a] n1 by auto
  have 3: "\<forall>t2 t2' im. 1 \<le> unread (fst (createMessage s1 t2 t2' im)) b a"
    using unread_createMessage_mono [OF mok1, of b a] n1 by (meson order_trans)
  have 4: "\<exists>e \<in> set (getConversations ?s2 b). same_pair a b e \<and> otherUser e = ua \<and> unreadCount e = 0"
    using listing_for_pair [OF conv2 conv(2) ua2] n2 by auto
  have 5: "\<forall>e \<in> set (getConversations ?s2 b). same_pair a b e \<longrightarrow> unreadCount e = 0"
    using listing_count [of _ ?s2 b a] n2 by auto
  from 1 2 3 4 5 show ?thesis by blast
qed

theorem unread_count_invariant_witness:
  "store_ok demo_store \<and>
   getUser demo_store 1 = Some (snd (createUser new_store 1000 demo_alice)) \<and>
   (\<exists>e \<in> set (getConversations demo_sent 2). same_pair 1 2 e \<and>
      otherUser e = snd (createUser new_store 1000 demo_alice) \<and> 1 \<le> unreadCount e) \<and>
   (\<exists>e \<in> set (getConversations (markMessagesAsRead demo_sent 2 1) 2). same_pair 1 2 e \<and>
      otherUser e = snd (createUser new_store 1000 demo_alice) \<and> unreadCount e = 0) \<and>
   map unreadCount (getConversations demo_sent 2) = [1] \<and>
   map unreadCount (getConversations (markMessagesAsRead demo_sent 2 1) 2) = [0]"
proof -
  have ok: "store_ok demo_store" by code_simp
  have ua: "getUser demo_store 1 = Some (snd (createUser new_store 1000 demo_alice))"
    by code_simp
  have cm: "createMessage demo_store 3000 3001
      \<lparr>content_in = ''hi'', senderId_in = Some 1, receiverId_in = Some 2\<rparr> =
      (demo_sent, snd (createMessage demo_store 3000 3001
          \<lparr>content_in = ''hi'', senderId_in = Some 1, receiverId_in = Some 2\<rparr>))"
    by (simp add: demo_sent_def)
  have before: "map unreadCount (getConversations demo_sent 2) = [1]" by code_simp
  have after: "map unreadCount (getConversations (markMessagesAsRead demo_sent 2 1) 2) = [0]"
    by code_simp
  from unread_count_invariant [OF ok ua cm] ok ua before after show ?thesis by blast
qed

subsection \<open>Message history and the read path\<close>



subsection \<open>Idempotence of marking\<close>

text \<open>
  Claim C7. \<^verbatim>\<open>markMessagesAsRead(viewer, other)\<close> is idempotent on every well-formed
  store: a second application yields the very store the first one produced, with the
  unread count of the pair at zero both times. It sets \<^verbatim>\<open>read\<close> on exactly the messages
  from \<open>other\<close> to \<open>viewer\<close> that were unread and changes nothing else in the store.
\<close>

theorem markMessagesAsRead_idempotent:
  assumes "messages_ok s"
  shows "markMessagesAsRead (markMessagesAsRead s v w) v w = markMessagesAsRead s v w \<and>
         unread (markMessagesAsRead s v w) v w = 0 \<and>
         unread (markMessagesAsRead (markMessagesAsRead s v w) v w) v w = 0 \<and>
         markMessagesAsRead s v w =
           s\<lparr>messages :=
               map (\<lambda>(k, m). (k, if senderId m = w \<and> receiverId m = v \<and> \<not> read m
                                   then m\<lparr>read := True\<rparr> else m)) (messages s)\<rparr>"
proof (intro conjI)
  show twice: "markMessagesAsRead (markMessagesAsRead s v w) v w = markMessagesAsRead s v w"
    by (rule mark_twice [OF assms])
  show zero: "unread (markMessagesAsRead s v w) v w = 0"
    by (rule unread_after_mark [OF assms])
  show "unread (markMessagesAsRead (markMessagesAsRead s v w) v w) v w = 0"
    by (simp only: twice zero)
  have "markMessagesAsRead s v w = s\<lparr>messages := messages (markMessagesAsRead s v w)\<rparr>"
    by (simp add: markMessagesAsRead_def)
  also have "\<dots> = s\<lparr>messages := map (\<lambda>(k, m). (k, mark_one v w m)) (messages s)\<rparr>"
    by (simp only: messages_mark [OF assms])
  finally show "markMessagesAsRead s v w =
           s\<lparr>messages :=
               map (\<lambda>(k, m). (k, if senderId m = w \<and> receiverId m = v \<and> \<not> read m
                                   then m\<lparr>read := True\<rparr> else m)) (messages s)\<rparr>"
    by (simp add: mark_one_def unread_from_def)
qed

theorem markMessagesAsRead_idempotent_witness:
  "messages_ok demo_answered \<and>
   markMessagesAsRead (markMessagesAsRead demo_answered 2 1) 2 1 = markMessagesAsRead demo_answered 2 1 \<and>
   unread demo_answered 2 1 = 1 \<and>
   unread (markMessagesAsRead demo_answered 2 1) 2 1 = 0 \<and>
   unread (markMessagesAsRead demo_answered 2 1) 1 2 = 1"
proof -
  have ok: "messages_ok demo_answered" by code_simp
  have before: "unread demo_answered 2 1 = 1" by code_simp
  have other: "unread (markMessagesAsRead demo_answered 2 1) 1 2 = 1" by code_simp
  from ok before other markMessagesAsRead_idempotent [OF ok, of 2 1] show ?thesis by blast
qed

section \<open>Properties of the realtime server\<close>

subsection \<open>Sending, forwarding and broadcasting\<close>

lemma send_simps [simp]:
  "clients (send st ws p) = clients st"
  "storage (send st ws p) = storage st"
  "wss_clients (send st ws p) = wss_clients st"
  "sockets (send st ws p) c =
     (if c = ws then (sockets st c)\<lparr>sent := sent (sockets st c) @ [p]\<rparr> else sockets st c)"
  by (simp_all add: send_def)

lemma close_socket_simps [simp]:
  "clients (close_socket st ws) = clients st"
  "storage (close_socket st ws) = storage st"
  "wss_clients (close_socket st ws) = wss_clients st"
  "userId (sockets (close_socket st ws) c) = userId (sockets st c)"
  "sent (sockets (close_socket st ws) c) = sent (sockets st c)"
  "isAlive (sockets (close_socket st ws) c) = isAlive (sockets st c)"
  "readyState (sockets (close_socket st ws) c) =
     (if c = ws \<and> readyState (sockets st c) \<noteq> CLOSED then CLOSING else readyState (sockets st c))"
  by (simp_all add: close_socket_def)

lemma forward_simps [simp]:
  "clients (forward st r p) = clients st"
  "storage (forward st r p) = storage st"
  "wss_clients (forward st r p) = wss_clients st"
  "userId (sockets (forward st r p) c) = userId (sockets st c)"
  "readyState (sockets (forward st r p) c) = readyState (sockets st c)"
  "isAlive (sockets (forward st r p) c) = isAlive (sockets st c)"
  by (simp_all add: forward_def split: option.split)

lemma forward_eq:
  "forward st r p =
     (if \<exists>c. map_of (clients st) r = Some c \<and> readyState (sockets st c) = OPEN
      then send st (the (map_of (clients st) r)) p else st)"
  by (auto simp: forward_def split: option.split)

text \<open>The loop of a broadcast, over any list of entries.\<close>

lemma broadcast_loop:
  "clients (foldl (\<lambda>st (user, client).
              if user \<noteq> skip \<and> readyState (sockets st client) = OPEN then send st client p
              else st) st es) = clients st \<and>
   storage (foldl (\<lambda>st (user, client).
              if user \<noteq> skip \<and> readyState (sockets st client) = OPEN then send st client p
              else st) st es) = storage st \<and>
   wss_clients (foldl (\<lambda>st (user, client).
              if user \<noteq> skip \<and> readyState (sockets st client) = OPEN then send st client p
              else st) st es) = wss_clients st \<and>
   sockets (foldl (\<lambda>st (user, client).
              if user \<noteq> skip \<and> readyState (sockets st client) = OPEN then send st client p
              else st) st es) c =
     (sockets st c)\<lparr>sent := sent (sockets st c) @
        (if readyState (sockets st c) = OPEN
         then replicate (length (filter (\<lambda>(user, client). client = c \<and> user \<noteq> skip) es)) p
         else [])\<rparr>"
proof (induction es arbitrary: st)
  case Nil
  then show ?case by simp
next
  case (Cons e es)
  obtain u c' where e: "e = (u, c')" by (cases e)
  show ?case
    by (simp add: e Cons.IH replicate_app_Cons_same)
qed

lemma broadcast_simps [simp]:
  "clients (broadcast st skip p) = clients st"
  "storage (broadcast st skip p) = storage st"
  "wss_clients (broadcast st skip p) = wss_clients st"
  "userId (sockets (broadcast st skip p) c) = userId (sockets st c)"
  "readyState (sockets (broadcast st skip p) c) = readyState (sockets st c)"
  "isAlive (sockets (broadcast st skip p) c) = isAlive (sockets st c)"
  using broadcast_loop [of skip p st "clients st" c] by (simp_all add: broadcast_def)

lemma broadcast_sent:
  "sent (sockets (broadcast st skip p) c) =
     sent (sockets st c) @
       (if readyState (sockets st c) = OPEN
        then replicate (length (filter (\<lambda>(user, client). client = c \<and> user \<noteq> skip) (clients st))) p
        else [])"
  using broadcast_loop [of skip p st "clients st" c] by (simp add: broadcast_def)

lemma process_simps [simp]:
  "clients (process st data m) = clients st"
  "storage (process st data m) = storage st"
  "wss_clients (process st data m) = wss_clients st"
  "userId (sockets (process st data m) c) = userId (sockets st c)"
  "readyState (sockets (process st data m) c) = readyState (sockets st c)"
  "isAlive (sockets (process st data m) c) = isAlive (sockets st c)"
  by (simp_all add: process_def split: MessageType.split)

lemma register_simps:
  "clients (register st now ws m) = AList.update (senderId_ws m) ws (clients st)"
  "userId (sockets (register st now ws m) c) =
     (if c = ws then Some (senderId_ws m) else userId (sockets st c))"
  "readyState (sockets (register st now ws m) c) =
     (if map_of (clients st) (senderId_ws m) = Some c \<and> c \<noteq> ws \<and>
         readyState (sockets st c) \<noteq> CLOSED
      then CLOSING else readyState (sockets st c))"
  "sent (sockets (register st now ws m) c) = sent (sockets st c)"
  "storage (register st now ws m) =
     (if type_ws m = STATUS
      then updateUserStatus_id (storage st) now (senderId_ws m) (content_ws m = Some ''online'')
      else storage st)"
  by (auto simp: register_def Let_def split: option.split)

subsection \<open>The first frame of a socket\<close>

text \<open>
  Claim C3, as amended. On a socket that carries no identity yet, a first frame that is not
  a text frame has its sender looked up in the user store before anything is routed: when
  the sender is unknown the frame is dropped and nothing at all changes; when the sender
  is known the socket takes that identity and is registered for it. A text frame is not
  looked up: it is forwarded to its receiver, and the socket stays as it was.
\<close>

theorem first_frame_authentication:
  assumes "\<not> truthy (userId (sockets st ws))"
  shows "(type_ws m \<noteq> TEXT \<and> getUser_id (storage st) (senderId_ws m) = None \<longrightarrow>
            on_message st now ws data (Some m) = st) \<and>
         (type_ws m \<noteq> TEXT \<and> getUser_id (storage st) (senderId_ws m) \<noteq> None \<longrightarrow>
            userId (sockets (on_message st now ws data (Some m)) ws) = Some (senderId_ws m) \<and>
            map_of (clients (on_message st now ws data (Some m))) (senderId_ws m) = Some ws) \<and>
         (type_ws m = TEXT \<longrightarrow>
            on_message st now ws data (Some m) = forward st (receiverId_ws m) (Verbatim data) \<and>
            userId (sockets (on_message st now ws data (Some m)) ws) = userId (sockets st ws) \<and>
            clients (on_message st now ws data (Some m)) = clients st \<and>
            storage (on_message st now ws data (Some m)) = storage st)"
proof (intro conjI impI)
  assume "type_ws m \<noteq> TEXT \<and> getUser_id (storage st) (senderId_ws m) = None"
  with assms show "on_message st now ws data (Some m) = st"
    by (simp add: on_message_def)
next
  assume "type_ws m \<noteq> TEXT \<and> getUser_id (storage st) (senderId_ws m) \<noteq> None"
  with assms have "on_message st now ws data (Some m) = process (register st now ws m) data m"
    by (auto simp: on_message_def)
  then show "userId (sockets (on_message st now ws data (Some m)) ws) = Some (senderId_ws m)"
    and "map_of (clients (on_message st now ws data (Some m))) (senderId_ws m) = Some ws"
    by (simp_all add: register_simps update_conv')
next
  assume "type_ws m = TEXT"
  then have e: "on_message st now ws data (Some m) = forward st (receiverId_ws m) (Verbatim data)"
    by (simp add: on_message_def process_def)
  then show "on_message st now ws data (Some m) = forward st (receiverId_ws m) (Verbatim data)" .
  from e show "userId (sockets (on_message st now ws data (Some m)) ws) = userId (sockets st ws)"
    and "clients (on_message st now ws data (Some m)) = clients st"
    and "storage (on_message st now ws data (Some m)) = storage st"
    by simp_all
qed

theorem first_frame_authentication_witness:
  "\<not> truthy (userId (sockets bob_online 0)) \<and>
   getUser_id (storage bob_online) (Num 99) = None \<and>
   on_message bob_online 6000 0 ''typing from 99'' (Some (demo_typing 99 2)) = bob_online \<and>
   getUser_id (storage bob_online) (Num 1) \<noteq> None \<and>
   userId (sockets (on_message bob_online 6000 0 ''typing from 1'' (Some (demo_typing 1 2))) 0) = Some (Num 1) \<and>
   map_of (clients (on_message bob_online 6000 0 ''typing from 1'' (Some (demo_typing 1 2)))) (Num 1) = Some 0 \<and>
   on_message bob_online 6000 0 ''text from 1'' (Some (demo_text 1 2)) =
     forward bob_online (Num 2) (Verbatim ''text from 1'')"
proof -
  have fresh: "\<not> truthy (userId (sockets bob_online 0))" by code_simp
  have unknown: "getUser_id (storage bob_online) (Num 99) = None" by code_simp
  have known: "getUser_id (storage bob_online) (Num 1) \<noteq> None" by code_simp
  have t99: "type_ws (demo_typing 99 2) \<noteq> TEXT" "senderId_ws (demo_typing 99 2) = Num 99"
    by (simp_all add: demo_typing_def)
  have t1: "type_ws (demo_typing 1 2) \<noteq> TEXT" "senderId_ws (demo_typing 1 2) = Num 1"
    by (simp_all add: demo_typing_def)
  have x1: "type_ws (demo_text 1 2) = TEXT" "receiverId_ws (demo_text 1 2) = Num 2"
    by (simp_all add: demo_text_def)
  from first_frame_authentication [OF fresh, of "demo_typing 99 2" 6000 "''typing from 99''"]
    unknown t99
  have a: "on_message bob_online 6000 0 ''typing from 99'' (Some (demo_typing 99 2)) = bob_online"
    by simp
  from first_frame_authentication [OF fresh, of "demo_typing 1 2" 6000 "''typing from 1''"]
    known t1
  have b: "userId (sockets (on_message bob_online 6000 0 ''typing from 1'' (Some (demo_typing 1 2))) 0) = Some (Num 1)"
    "map_of (clients (on_message bob_online 6000 0 ''typing from 1'' (Some (demo_typing 1 2)))) (Num 1) = Some 0"
    by simp_all
  from first_frame_authentication [OF fresh, of "demo_text 1 2" 6000 "''text from 1''"] x1
  have c: "on_message bob_online 6000 0 ''text from 1'' (Some (demo_text 1 2)) =
     forward bob_online (Num 2) (Verbatim ''text from 1'')"
    by simp
  from fresh unknown known a b c show ?thesis by blast
qed

text \<open>
  As stated for a first frame of any kind, claim C3 fails on text frames. Socket 0 has sent
  nothing yet and Bob is online: a text frame in the name of the unknown user 99 reaches
  Bob, and a text frame in Alice's name leaves socket 0 without identity or registration.
\<close>

theorem first_text_frame_not_validated:
  "\<not> truthy (userId (sockets bob_online 0)) \<and>
   getUser_id (storage bob_online) (Num 99) = None \<and>
   sent (sockets bob_online 1) = [] \<and>
   sent (sockets (on_message bob_online 6000 0 ''text from 99'' (Some (demo_text 99 2))) 1) =
     [Verbatim ''text from 99''] \<and>
   getUser_id (storage bob_online) (Num 1) \<noteq> None \<and>
   userId (sockets (on_message bob_online 6000 0 ''text from 1'' (Some (demo_text 1 2))) 0) = None \<and>
   map_of (clients (on_message bob_online 6000 0 ''text from 1'' (Some (demo_text 1 2)))) (Num 1) = None"
  by code_simp

subsection \<open>Typing frames\<close>

text \<open>
  Claim C9, as amended. A typing frame never changes the store. On a socket that carries an
  identity its only effect is that the receiver, when registered with an open socket, is
  sent the data as it came; otherwise nothing changes. On a socket without identity the
  frame is a first frame: dropped when the sender is unknown, and otherwise forwarded in
  the same way after the socket has been registered.
\<close>

theorem typing_frame_effect:
  assumes "type_ws m = TYPING"
  shows "storage (on_message st now ws data (Some m)) = storage st \<and>
         (truthy (userId (sockets st ws)) \<longrightarrow>
            (\<forall>c. map_of (clients st) (receiverId_ws m) = Some c \<and> readyState (sockets st c) = OPEN \<longrightarrow>
                 on_message st now ws data (Some m) = send st c (Verbatim data)) \<and>
            ((\<forall>c. map_of (clients st) (receiverId_ws m) = Some c \<longrightarrow> readyState (sockets st c) \<noteq> OPEN) \<longrightarrow>
                 on_message st now ws data (Some m) = st)) \<and>
         (\<not> truthy (userId (sockets st ws)) \<and> getUser_id (storage st) (senderId_ws m) = None \<longrightarrow>
            on_message st now ws data (Some m) = st) \<and>
         (\<not> truthy (userId (sockets st ws)) \<and> getUser_id (storage st) (senderId_ws m) \<noteq> None \<longrightarrow>
            on_message st now ws data (Some m) =
              forward (register st now ws m) (receiverId_ws m) (Verbatim data))"
  using assms
  by (auto simp: on_message_def process_def register_simps forward_def split: option.split)

theorem typing_frame_effect_witness:
  "type_ws (demo_typing 1 2) = TYPING \<and>
   truthy (userId (sockets both_online 0)) \<and>
   map_of (clients both_online) (Num 2) = Some 1 \<and> readyState (sockets both_online 1) = OPEN \<and>
   on_message both_online 6000 0 ''alice typing'' (Some (demo_typing 1 2)) =
     send both_online 1 (Verbatim ''alice typing'') \<and>
   storage (on_message both_online 6000 0 ''alice typing'' (Some (demo_typing 1 2))) =
     storage both_online \<and>
   sent (sockets (on_message both_online 6000 0 ''alice typing'' (Some (demo_typing 1 2))) 1) =
     [Verbatim ''alice typing''] \<and>
   \<not> truthy (userId (sockets bob_online 0)) \<and>
   getUser_id (storage bob_online) (Num 99) = None \<and>
   on_message bob_online 6000 0 ''typing from 99'' (Some (demo_typing 99 2)) = bob_online"
proof -
  have ty: "type_ws (demo_typing 1 2) = TYPING" "receiverId_ws (demo_typing 1 2) = Num 2"
    by (simp_all add: demo_typing_def)
  have ty99: "type_ws (demo_typing 99 2) = TYPING" "senderId_ws (demo_typing 99 2) = Num 99"
    by (simp_all add: demo_typing_def)
  have auth: "truthy (userId (sockets both_online 0))" by code_simp
  have bob: "map_of (clients both_online) (Num 2) = Some 1" "readyState (sockets both_online 1) = OPEN"
    by code_simp+
  have got: "sent (sockets (on_message both_online 6000 0 ''alice typing'' (Some (demo_typing 1 2))) 1) =
     [Verbatim ''alice typing'']" by code_simp
  have fresh: "\<not> truthy (userId (sockets bob_online 0))" by code_simp
  have unknown: "getUser_id (storage bob_online) (Num 99) = None" by code_simp
  note t = typing_frame_effect [OF ty(1), of both_online 6000 0 "''alice typing''"]
  from t have a: "storage (on_message both_online 6000 0 ''alice typing'' (Some (demo_typing 1 2))) =
     storage both_online" by blast
  from t auth bob ty(2)
  have b: "on_message both_online 6000 0 ''alice typing'' (Some (demo_typing 1 2)) =
     send both_online 1 (Verbatim ''alice typing'')" by simp
  from typing_frame_effect [OF ty99(1), of bob_online 6000 0 "''typing from 99''"] fresh unknown ty99(2)
  have c: "on_message bob_online 6000 0 ''typing from 99'' (Some (demo_typing 99 2)) = bob_online"
    by simp
  from ty(1) auth bob a b got fresh unknown c show ?thesis by blast
qed

text \<open>
  As stated, claim C9 fails on a first frame: nobody is registered as user 7, and the typing
  frame that socket 0 sends to 7 in Alice's name still registers the socket for Alice.
\<close>

theorem typing_frame_registers_socket:
  "type_ws (demo_typing 1 7) = TYPING \<and>
   map_of (clients bob_online) (Num 7) = None \<and>
   clients bob_online = [(Num 2, 1)] \<and>
   userId (sockets bob_online 0) = None \<and>
   clients (on_message bob_online 6000 0 ''typing'' (Some (demo_typing 1 7))) = [(Num 2, 1), (Num 1, 0)] \<and>
   userId (sockets (on_message bob_online 6000 0 ''typing'' (Some (demo_typing 1 7))) 0) = Some (Num 1)"
  by code_simp

subsection \<open>The close event of a replaced socket\<close>

text \<open>
  Claim C1 says that after bind(U, A) and bind(U, B) the close of A leaves B registered.
  The close handler deletes the entry of the closing socket's identity whichever socket it
  holds. Evaluated on the run in which Alice logs in on socket 0 and again on socket 2:
  socket 2 is registered and socket 0 closing; after the close event of socket 0 nothing
  is registered for Alice, although socket 2 is open and carries her identity.
\<close>

theorem stale_close_unbinds_newer_socket:
  "map_of (clients both_online) (Num 1) = Some 0 \<and>
   map_of (clients second_login) (Num 1) = Some 2 \<and>
   userId (sockets second_login 0) = Some (Num 1) \<and>
   readyState (sockets second_login 0) = CLOSING \<and>
   map_of (clients (on_close second_login 6000 0)) (Num 1) = None \<and>
   userId (sockets (on_close second_login 6000 0) 2) = Some (Num 1) \<and>
   readyState (sockets (on_close second_login 6000 0) 2) = OPEN"
  by code_simp

subsection \<open>Disconnection\<close>

lemma getUser_updateUserStatus:
  "getUser_id (updateUserStatus_id s now a b) a =
     map_option (\<lambda>u. u\<lparr>isOnline := b, lastActive := now\<rparr>) (getUser_id s a)"
  by (cases a) (auto simp: updateUserStatus_def getUser_def update_conv' split: option.split)

lemma updateUserStatus_keeps:
  "messages (updateUserStatus_id s now a b) = messages s"
  "conversations (updateUserStatus_id s now a b) = conversations s"
  by (cases a; simp add: updateUserStatus_def split: option.split)+

lemma occurs_once: "distinct xs \<Longrightarrow> x \<in> set xs \<Longrightarrow> length (filter (\<lambda>e. e = x) xs) = 1"
  by (induction xs) (auto simp: filter_empty_conv)

lemma registered_once:
  assumes "registry_ok st" and "(v, c) \<in> set (clients st)" and "v \<noteq> a"
  shows "length (filter (\<lambda>(user, client). client = c \<and> user \<noteq> a) (clients st)) = 1"
proof -
  have same: "(\<lambda>(user, client). client = c \<and> user \<noteq> a) e \<longleftrightarrow> e = (v, c)"
    if "e \<in> set (clients st)" for e
  proof -
    obtain u c' where e: "e = (u, c')" by (cases e)
    from assms(1,2) have "userId (sockets st c) = Some v" by (auto simp: registry_ok_def)
    moreover from assms(1) that e have "userId (sockets st c') = Some u"
      by (auto simp: registry_ok_def)
    ultimately show ?thesis using e assms(3) by auto
  qed
  from assms(1) have "distinct (clients st)"
    by (simp add: registry_ok_def distinct_map)
  then have "length (filter (\<lambda>e. e = (v, c)) (clients st)) = 1"
    using assms(2) by (rule occurs_once)
  moreover have "filter (\<lambda>(user, client). client = c \<and> user \<noteq> a) (clients st) =
      filter (\<lambda>e. e = (v, c)) (clients st)"
    by (rule filter_cong) (use same in auto)
  ultimately show ?thesis by simp
qed

lemma on_close_registered:
  assumes "userId (sockets st ws) = Some a" and "truthy (Some a)"
  shows "on_close st now ws =
     (broadcast
        (st\<lparr>sockets := (sockets st)(ws := (sockets st ws)\<lparr>readyState := CLOSED\<rparr>),
            wss_clients := removeAll ws (wss_clients st),
            storage := updateUserStatus_id (storage st) now a False\<rparr>)
        a (Stringified (offlineMessage a)))
     \<lparr>clients := AList.delete a (clients st)\<rparr>"
  using assms by (simp add: on_close_def Let_def)

text \<open>
  Claim C4, as amended. When the socket registered for identity \<open>a\<close> closes, the stored
  online flag of \<open>a\<close> becomes false, every other registered identity whose socket is open
  is sent exactly one offline status frame for \<open>a\<close>, a registered socket that is not open
  and every socket not registered for another identity are sent nothing, and the entry
  of \<open>a\<close> is removed.
\<close>

theorem genuine_disconnect:
  assumes ok: "registry_ok st" and reg: "map_of (clients st) a = Some ws"
  shows "getUser_id (storage (on_close st now ws)) a =
           map_option (\<lambda>u. u\<lparr>isOnline := False, lastActive := now\<rparr>) (getUser_id (storage st) a) \<and>
         (\<forall>(v, c) \<in> set (clients st). v \<noteq> a \<longrightarrow>
            sent (sockets (on_close st now ws) c) =
              sent (sockets st c) @
                (if readyState (sockets st c) = OPEN then [Stringified (offlineMessage a)] else [])) \<and>
         (\<forall>c. (\<forall>v. (v, c) \<in> set (clients st) \<longrightarrow> v = a) \<longrightarrow>
            sent (sockets (on_close st now ws) c) = sent (sockets st c)) \<and>
         clients (on_close st now ws) = AList.delete a (clients st) \<and>
         map_of (clients (on_close st now ws)) a = None"
proof -
  from reg have mem: "(a, ws) \<in> set (clients st)" by (rule map_of_SomeD)
  with ok have uid: "userId (sockets st ws) = Some a" and tr: "truthy (Some a)"
    by (auto simp: registry_ok_def)
  let ?p = "Stringified (offlineMessage a)"
  let ?st1 = "st\<lparr>sockets := (sockets st)(ws := (sockets st ws)\<lparr>readyState := CLOSED\<rparr>),
            wss_clients := removeAll ws (wss_clients st),
            storage := updateUserStatus_id (storage st) now a False\<rparr>"
  have eq: "on_close st now ws = (broadcast ?st1 a ?p)\<lparr>clients := AList.delete a (clients st)\<rparr>"
    by (rule on_close_registered [OF uid tr])
  have sent: "sent (sockets (on_close st now ws) c) =
      sent (sockets st c) @
        (if c \<noteq> ws \<and> readyState (sockets st c) = OPEN
         then replicate (length (filter (\<lambda>(user, client). client = c \<and> user \<noteq> a) (clients st))) ?p
         else [])" for c
    by (simp add: eq broadcast_sent)
  have 1: "getUser_id (storage (on_close st now ws)) a =
      map_option (\<lambda>u. u\<lparr>isOnline := False, lastActive := now\<rparr>) (getUser_id (storage st) a)"
    by (simp add: eq getUser_updateUserStatus)
  have 2: "\<forall>(v, c) \<in> set (clients st). v \<noteq> a \<longrightarrow>
      sent (sockets (on_close st now ws) c) =
        sent (sockets st c) @
          (if readyState (sockets st c) = OPEN then [Stringified (offlineMessage a)] else [])"
  proof (intro ballI, clarify)
    fix v c assume vc: "(v, c) \<in> set (clients st)" and ne: "v \<noteq> a"
    from ok vc have "userId (sockets st c) = Some v" by (auto simp: registry_ok_def)
    with uid ne have "c \<noteq> ws" by auto
    with registered_once [OF ok vc ne] sent [of c]
    show "sent (sockets (on_close st now ws) c) =
        sent (sockets st c) @
          (if readyState (sockets st c) = OPEN then [Stringified (offlineMessage a)] else [])"
      by simp
  qed
  have 3: "\<forall>c. (\<forall>v. (v, c) \<in> set (clients st) \<longrightarrow> v = a) \<longrightarrow>
            sent (sockets (on_close st now ws) c) = sent (sockets st c)"
  proof (intro allI impI)
    fix c assume "\<forall>v. (v, c) \<in> set (clients st) \<longrightarrow> v = a"
    then have "filter (\<lambda>(user, client). client = c \<and> user \<noteq> a) (clients st) = []"
      by (auto simp: filter_empty_conv)
    with sent [of c] show "sent (sockets (on_close st now ws) c) = sent (sockets st c)" by simp
  qed
  have 4: "clients (on_close st now ws) = AList.delete a (clients st)" by (simp add: eq)
  then have 5: "map_of (clients (on_close st now ws)) a = None" by (simp add: delete_conv')
  from 1 2 3 4 5 show ?thesis by blast
qed

theorem genuine_disconnect_witness:
  "registry_ok both_online \<and> map_of (clients both_online) (Num 1) = Some 0 \<and>
   getUser_id (storage (on_close both_online 6000 0)) (Num 1) =
     map_option (\<lambda>u. u\<lparr>isOnline := False, lastActive := 6000\<rparr>) (getUser_id (storage both_online) (Num 1)) \<and>
   map (\<lambda>(k, u). isOnline u) (users (storage (on_close both_online 6000 0))) = [False, True] \<and>
   sent (sockets (on_close both_online 6000 0) 1) = [Stringified (offlineMessage (Num 1))] \<and>
   sent (sockets (on_close both_online 6000 0) 0) = sent (sockets both_online 0) \<and>
   map_of (clients (on_close both_online 6000 0)) (Num 1) = None \<and>
   map_of (clients (on_close both_online 6000 0)) (Num 2) = Some 1"
proof -
  have ok: "registry_ok both_online" by code_simp
  have reg: "map_of (clients both_online) (Num 1) = Some 0" by code_simp
  have flags: "map (\<lambda>(k, u). isOnline u) (users (storage (on_close both_online 6000 0))) = [False, True]"
    by code_simp
  have bob: "sent (sockets (on_close both_online 6000 0) 1) = [Stringified (offlineMessage (Num 1))]"
    "map_of (clients (on_close both_online 6000 0)) (Num 2) = Some 1"
    by code_simp+
  have "clients both_online = [(Num 1, 0), (Num 2, 1)]" by code_simp
  then have own: "\<forall>v. (v, 0) \<in> set (clients both_online) \<longrightarrow> v = Num 1" by simp
  note t = genuine_disconnect [OF ok reg, of 6000]
  from t have a: "getUser_id (storage (on_close both_online 6000 0)) (Num 1) =
     map_option (\<lambda>u. u\<lparr>isOnline := False, lastActive := 6000\<rparr>) (getUser_id (storage both_online) (Num 1))"
    by blast
  from t own have b: "sent (sockets (on_close both_online 6000 0) 0) = sent (sockets both_online 0)"
    by blast
  from t have c: "map_of (clients (on_close both_online 6000 0)) (Num 1) = None" by blast
  from ok reg flags bob a b c show ?thesis by blast
qed

text \<open>
  As stated, claim C4 fails twice. Bob is registered on a socket that the heartbeat has
  terminated and whose close event is still to come: when Alice's socket closes he is
  sent nothing. And the close event of the socket that Alice's second login replaced
  marks her offline and sends Bob the offline frame, while her new socket is open.
\<close>

theorem offline_broadcast_counterexample:
  "map_of (clients bob_silent) (Num 1) = Some 0 \<and>
   map_of (clients bob_silent) (Num 2) = Some 1 \<and>
   readyState (sockets bob_silent 1) = CLOSING \<and>
   map_of (clients (on_close bob_silent 6000 0)) (Num 2) = Some 1 \<and>
   sent (sockets (on_close bob_silent 6000 0) 1) = sent (sockets bob_silent 1) \<and>
   map_of (clients second_login) (Num 1) = Some 2 \<and>
   readyState (sockets second_login 0) = CLOSING \<and>
   readyState (sockets second_login 2) = OPEN \<and>
   map (\<lambda>(k, u). isOnline u) (users (storage second_login)) = [True, True] \<and>
   map (\<lambda>(k, u). isOnline u) (users (storage (on_close second_login 6000 0))) = [False, True] \<and>
   sent (sockets (on_close second_login 6000 0) 1) =
     sent (sockets second_login 1) @ [Stringified (offlineMessage (Num 1))]"
  by code_simp

subsection \<open>One registered socket per identity\<close>

lemma bind_step:
  assumes ok: "registry_ok st" and tr: "truthy (Some U)"
    and known: "getUser_id (storage st) U \<noteq> None"
    and fresh: "\<not> truthy (userId (sockets st ws))"
    and ty: "type_ws m \<noteq> TEXT" and sid: "senderId_ws m = U"
  shows "registry_ok (on_message st now ws data (Some m))"
    and "getUser_id (storage (on_message st now ws data (Some m))) U \<noteq> None"
    and "map_of (clients (on_message st now ws data (Some m))) U = Some ws"
    and "\<And>c. c \<noteq> ws \<Longrightarrow>
           userId (sockets (on_message st now ws data (Some m)) c) = userId (sockets st c)"
    and "\<And>c. readyState (sockets (on_message st now ws data (Some m)) c) =
           (if map_of (clients st) U = Some c \<and> readyState (sockets st c) \<noteq> CLOSED
            then CLOSING else readyState (sockets st c))"
proof -
  let ?st' = "on_message st now ws data (Some m)"
  from known fresh ty sid have eq: "?st' = process (register st now ws m) data m"
    by (auto simp: on_message_def)
  have notreg: "map_of (clients st) u \<noteq> Some ws" for u
  proof
    assume "map_of (clients st) u = Some ws"
    then have "(u, ws) \<in> set (clients st)" by (rule map_of_SomeD)
    with ok have "userId (sockets st ws) = Some u" "truthy (Some u)"
      by (auto simp: registry_ok_def)
    with fresh show False by simp
  qed
  from ok have d: "distinct (map fst (clients st))" by (simp add: registry_ok_def)
  have cl: "clients ?st' = AList.update U ws (clients st)"
    by (simp add: eq register_simps sid)
  have d': "distinct (map fst (clients ?st'))"
    by (simp add: cl d distinct_update)
  have uid: "userId (sockets ?st' c) = (if c = ws then Some U else userId (sockets st c))" for c
    by (simp add: eq register_simps sid)
  show "registry_ok ?st'"
    unfolding registry_ok_def
  proof (intro conjI ballI, rule d', clarify)
    fix u c assume "(u, c) \<in> set (clients ?st')"
    with d' have "map_of (clients ?st') u = Some c" by simp
    then have m: "(if u = U then Some ws else map_of (clients st) u) = Some c"
      by (simp add: cl update_conv')
    show "userId (sockets ?st' c) = Some u \<and> truthy (Some u)"
    proof (cases "u = U")
      case True
      with m have "c = ws" by simp
      with True tr uid [of ws] show ?thesis by simp
    next
      case False
      with m have r: "map_of (clients st) u = Some c" by simp
      with notreg [of u] have "c \<noteq> ws" by auto
      moreover from r have "(u, c) \<in> set (clients st)" by (rule map_of_SomeD)
      with ok have "userId (sockets st c) = Some u \<and> truthy (Some u)"
        by (auto simp: registry_ok_def)
      ultimately show ?thesis by (simp add: uid)
    qed
  qed
  show "getUser_id (storage ?st') U \<noteq> None"
    using known by (simp add: eq register_simps sid getUser_updateUserStatus)
  show "map_of (clients ?st') U = Some ws"
    by (simp add: cl update_conv')
  show "\<And>c. c \<noteq> ws \<Longrightarrow> userId (sockets ?st' c) = userId (sockets st c)"
    by (simp add: uid)
  show "\<And>c. readyState (sockets ?st' c) =
           (if map_of (clients st) U = Some c \<and> readyState (sockets st c) \<noteq> CLOSED
            then CLOSING else readyState (sockets st c))"
    using notreg [of U] by (auto simp: eq register_simps sid)
qed

lemma set_butlast_last: "xs \<noteq> [] \<Longrightarrow> set xs = insert (last xs) (set (butlast xs))"
  by (induction xs) auto

lemma run_snoc: "run st (evs @ [e]) = step (run st evs) e"
  by (simp add: run_def)

lemma binds_invariant:
  assumes ok: "registry_ok st" and tr: "truthy (Some U)"
    and known: "getUser_id (storage st) U \<noteq> None"
    and dist: "distinct (map frame_socket xs)"
    and firsts: "\<forall>(now, ws, data, m) \<in> set xs.
        \<not> truthy (userId (sockets st ws)) \<and> type_ws m \<noteq> TEXT \<and> senderId_ws m = U"
  shows "registry_ok (run st (first_frames xs)) \<and>
         getUser_id (storage (run st (first_frames xs))) U \<noteq> None \<and>
         (\<forall>c. c \<notin> set (map frame_socket xs) \<longrightarrow>
            userId (sockets (run st (first_frames xs)) c) = userId (sockets st c)) \<and>
         (xs \<noteq> [] \<longrightarrow> map_of (clients (run st (first_frames xs))) U = Some (last (map frame_socket xs))) \<and>
         (xs = [] \<longrightarrow> run st (first_frames xs) = st) \<and>
         (\<forall>c. readyState (sockets (run st (first_frames xs)) c) =
            (if (map_of (clients st) U = Some c \<and> xs \<noteq> [] \<or> c \<in> set (butlast (map frame_socket xs))) \<and>
                readyState (sockets st c) \<noteq> CLOSED
             then CLOSING else readyState (sockets st c)))"
  using dist firsts
proof (induction xs rule: rev_induct)
  case Nil
  with ok known show ?case by (simp add: run_def first_frames_def)
next
  case (snoc x ys)
  obtain now ws data m where x: "x = (now, ws, data, m)" by (cases x)
  let ?wss = "map frame_socket ys"
  let ?mid = "run st (first_frames ys)"
  let ?st' = "run st (first_frames (ys @ [x]))"
  have fsx: "frame_socket x = ws" by (simp add: x frame_socket_def)
  from snoc.prems(1) have dys: "distinct ?wss" and new: "ws \<notin> set ?wss"
    by (simp_all add: fsx)
  from snoc.prems(2) have fys: "\<forall>(now, ws, data, m) \<in> set ys.
        \<not> truthy (userId (sockets st ws)) \<and> type_ws m \<noteq> TEXT \<and> senderId_ws m = U"
    and fx: "\<not> truthy (userId (sockets st ws))" "type_ws m \<noteq> TEXT" "senderId_ws m = U"
    by (simp_all add: x)
  note ih = snoc.IH [OF dys fys]
  from ih have okm: "registry_ok ?mid" and knownm: "getUser_id (storage ?mid) U \<noteq> None"
    and uidm: "\<forall>c. c \<notin> set ?wss \<longrightarrow> userId (sockets ?mid c) = userId (sockets st c)"
    and lastm: "ys \<noteq> [] \<longrightarrow> map_of (clients ?mid) U = Some (last ?wss)"
    and nilm: "ys = [] \<longrightarrow> ?mid = st"
    and rsm: "\<forall>c. readyState (sockets ?mid c) =
            (if (map_of (clients st) U = Some c \<and> ys \<noteq> [] \<or> c \<in> set (butlast ?wss)) \<and>
                readyState (sockets st c) \<noteq> CLOSED
             then CLOSING else readyState (sockets st c))"
    by blast+
  from uidm new fx(1) have freshm: "\<not> truthy (userId (sockets ?mid ws))" by simp
  have st': "?st' = on_message ?mid now ws data (Some m)"
    by (simp add: first_frames_def run_snoc x)
  note bs = bind_step [OF okm tr knownm freshm fx(2,3), where now = now and data = data]
  have 1: "registry_ok ?st'" unfolding st' by (rule bs(1))
  have 2: "getUser_id (storage ?st') U \<noteq> None" unfolding st' by (rule bs(2))
  have 3: "\<forall>c. c \<notin> set (map frame_socket (ys @ [x])) \<longrightarrow>
            userId (sockets ?st' c) = userId (sockets st c)"
    using bs(4) uidm by (simp add: st' fsx)
  have 4: "map_of (clients ?st') U = Some (last (map frame_socket (ys @ [x])))"
    using bs(3) by (simp add: st' fsx)
  have 5: "\<forall>c. readyState (sockets ?st' c) =
            (if (map_of (clients st) U = Some c \<and> ys @ [x] \<noteq> [] \<or>
                 c \<in> set (butlast (map frame_socket (ys @ [x])))) \<and>
                readyState (sockets st c) \<noteq> CLOSED
             then CLOSING else readyState (sockets st c))"
  proof
    fix c
    have step: "readyState (sockets ?st' c) =
           (if map_of (clients ?mid) U = Some c \<and> readyState (sockets ?mid c) \<noteq> CLOSED
            then CLOSING else readyState (sockets ?mid c))"
      using bs(5) [of c] by (simp only: st')
    show "readyState (sockets ?st' c) =
            (if (map_of (clients st) U = Some c \<and> ys @ [x] \<noteq> [] \<or>
                 c \<in> set (butlast (map frame_socket (ys @ [x])))) \<and>
                readyState (sockets st c) \<noteq> CLOSED
             then CLOSING else readyState (sockets st c))"
    proof (cases "ys = []")
      case True
      with nilm step show ?thesis by simp
    next
      case False
      with lastm have l: "map_of (clients ?mid) U = Some (last ?wss)" by simp
      from False have "?wss \<noteq> []" by simp
      from set_butlast_last [OF this]
      have in_iff: "c \<in> set ?wss \<longleftrightarrow> c = last ?wss \<or> c \<in> set (butlast ?wss)" by simp
      have bl: "butlast (map frame_socket (ys @ [x])) = ?wss" by simp
      have old: "readyState (sockets ?mid c) =
            (if (map_of (clients st) U = Some c \<or> c \<in> set (butlast ?wss)) \<and>
                readyState (sockets st c) \<noteq> CLOSED
             then CLOSING else readyState (sockets st c))"
        using rsm False by simp
      show ?thesis
      proof (cases "c = last ?wss")
        case True
        then have "c \<in> set ?wss" using in_iff by simp
        with True step l old show ?thesis unfolding bl by auto
      next
        case False
        with in_iff have "c \<in> set ?wss \<longleftrightarrow> c \<in> set (butlast ?wss)" by simp
        with False step l old show ?thesis unfolding bl by auto
      qed
    qed
  qed
  from 1 2 3 4 5 show ?case by simp
qed

lemma single_entry:
  "distinct (map fst al) \<Longrightarrow> map_of al k = Some v \<Longrightarrow> filter (\<lambda>(k', v'). k' = k) al = [(k, v)]"
proof (induction al)
  case Nil
  then show ?case by simp
next
  case (Cons p al)
  obtain k' v' where p: "p = (k', v')" by (cases p)
  show ?case
  proof (cases "k' = k")
    case True
    with Cons.prems p have "v' = v" and "k \<notin> fst ` set al" by auto
    then have "filter (\<lambda>(k', v'). k' = k) al = []" by (force simp: filter_empty_conv)
    with True p \<open>v' = v\<close> show ?thesis by simp
  next
    case False
    with Cons p show ?thesis by simp
  qed
qed

text \<open>
  The registration path on its own. Let any number of sockets that carry no identity yet
  each send a first frame (not a text frame) in the name of the stored user \<open>U\<close>, with no
  other event in between. Then the registry holds exactly one entry for \<open>U\<close>, the socket
  of the last frame, whose state is what it was; every earlier socket of the list, and
  the socket registered for \<open>U\<close> before, has been closed.
\<close>

lemma registrations_in_a_row:
  assumes ok: "registry_ok st" and tr: "truthy (Some U)"
    and known: "getUser_id (storage st) U \<noteq> None"
    and ne: "xs \<noteq> []"
    and dist: "distinct (map frame_socket xs)"
    and firsts: "\<forall>(now, ws, data, m) \<in> set xs.
        \<not> truthy (userId (sockets st ws)) \<and> type_ws m \<noteq> TEXT \<and> senderId_ws m = U"
  shows "map_of (clients (run st (first_frames xs))) U = Some (last (map frame_socket xs)) \<and>
         filter (\<lambda>(u, c). u = U) (clients (run st (first_frames xs))) =
           [(U, last (map frame_socket xs))] \<and>
         (\<forall>c \<in> set (butlast (map frame_socket xs)).
            readyState (sockets (run st (first_frames xs)) c) \<in> {CLOSING, CLOSED}) \<and>
         (\<forall>c. map_of (clients st) U = Some c \<longrightarrow>
            readyState (sockets (run st (first_frames xs)) c) \<in> {CLOSING, CLOSED}) \<and>
         readyState (sockets (run st (first_frames xs)) (last (map frame_socket xs))) =
           readyState (sockets st (last (map frame_socket xs))) \<and>
         registry_ok (run st (first_frames xs))"
proof -
  let ?st' = "run st (first_frames xs)"
  let ?wss = "map frame_socket xs"
  note inv = binds_invariant [OF ok tr known dist firsts]
  from inv have ok': "registry_ok ?st'" by blast
  from inv ne have reg: "map_of (clients ?st') U = Some (last ?wss)" by blast
  from inv have rs: "readyState (sockets ?st' c) =
       (if (map_of (clients st) U = Some c \<and> xs \<noteq> [] \<or> c \<in> set (butlast ?wss)) \<and>
           readyState (sockets st c) \<noteq> CLOSED
        then CLOSING else readyState (sockets st c))" for c
    by blast
  from ok' have "distinct (map fst (clients ?st'))" by (simp add: registry_ok_def)
  from single_entry [OF this reg]
  have one: "filter (\<lambda>(u, c). u = U) (clients ?st') = [(U, last ?wss)]" .
  have prior: "\<forall>c \<in> set (butlast ?wss). readyState (sockets ?st' c) \<in> {CLOSING, CLOSED}"
    by (simp add: rs)
  have initial: "\<forall>c. map_of (clients st) U = Some c \<longrightarrow>
      readyState (sockets ?st' c) \<in> {CLOSING, CLOSED}"
    using ne by (simp add: rs)
  from ne have "?wss \<noteq> []" by simp
  then have last_in: "last ?wss \<in> set ?wss" by (rule last_in_set)
  then obtain x where x: "x \<in> set xs" "frame_socket x = last ?wss" by auto
  obtain now ws data m where xx: "x = (now, ws, data, m)" by (cases x)
  with x firsts have fresh: "\<not> truthy (userId (sockets st (last ?wss)))"
    by (auto simp: frame_socket_def)
  have notinit: "map_of (clients st) U \<noteq> Some (last ?wss)"
  proof
    assume "map_of (clients st) U = Some (last ?wss)"
    then have "(U, last ?wss) \<in> set (clients st)" by (rule map_of_SomeD)
    with ok have "userId (sockets st (last ?wss)) = Some U" by (auto simp: registry_ok_def)
    with fresh tr show False by simp
  qed
  from ne have "?wss = butlast ?wss @ [last ?wss]" by simp
  with dist have "distinct (butlast ?wss @ [last ?wss])" by simp
  then have notprior: "last ?wss \<notin> set (butlast ?wss)" by simp
  from notinit notprior
  have live: "readyState (sockets ?st' (last ?wss)) = readyState (sockets st (last ?wss))"
    by (simp add: rs)
  from reg one prior initial live ok' show ?thesis by blast
qed

lemma registrations_in_a_row_example:
  "registry_ok more_sockets \<and> truthy (Some (Num 1)) \<and>
   getUser_id (storage more_sockets) (Num 1) \<noteq> None \<and>
   map frame_socket alice_logins = [2, 3, 4] \<and>
   map_of (clients more_sockets) (Num 1) = Some 0 \<and>
   map_of (clients (run more_sockets (first_frames alice_logins))) (Num 1) = Some 4 \<and>
   clients (run more_sockets (first_frames alice_logins)) = [(Num 1, 4), (Num 2, 1)] \<and>
   map (\<lambda>c. readyState (sockets (run more_sockets (first_frames alice_logins)) c)) [0, 2, 3, 4] =
     [CLOSING, CLOSING, CLOSING, OPEN]"
proof -
  have ok: "registry_ok more_sockets" by code_simp
  have tr: "truthy (Some (Num 1))" by simp
  have known: "getUser_id (storage more_sockets) (Num 1) \<noteq> None" by code_simp
  have ne: "alice_logins \<noteq> []" by (simp add: alice_logins_def)
  have socks: "map frame_socket alice_logins = [2, 3, 4]" by code_simp
  then have dist: "distinct (map frame_socket alice_logins)" by simp
  have firsts: "\<forall>(now, ws, data, m) \<in> set alice_logins.
        \<not> truthy (userId (sockets more_sockets ws)) \<and> type_ws m \<noteq> TEXT \<and> senderId_ws m = Num 1"
    by code_simp
  have before: "map_of (clients more_sockets) (Num 1) = Some 0" by code_simp
  have all: "clients (run more_sockets (first_frames alice_logins)) = [(Num 1, 4), (Num 2, 1)]"
    by code_simp
  have states: "map (\<lambda>c. readyState (sockets (run more_sockets (first_frames alice_logins)) c))
      [0, 2, 3, 4] = [CLOSING, CLOSING, CLOSING, OPEN]"
    by code_simp
  from registrations_in_a_row [OF ok tr known ne dist firsts]
  have "map_of (clients (run more_sockets (first_frames alice_logins))) (Num 1) =
      Some (last (map frame_socket alice_logins))" by blast
  then have "map_of (clients (run more_sockets (first_frames alice_logins))) (Num 1) = Some 4"
    by (simp add: socks)
  with ok tr known socks before all states show ?thesis by blast
qed

text \<open>
  Claim C2 says that after any sequence of bind(U, .) calls the last socket is the one
  registered for U and every earlier one has been closed, so that at most one live
  socket is bound to U at any instant. Every replacement is followed by the close event
  of the replaced socket, and the close handler deletes the entry of U whichever socket
  it holds. Evaluated on the run in which Alice logs in on socket 0, then on socket 2, the
  close event of socket 0 arrives, and she logs in on socket 3: the third login finds no
  entry for her and closes nothing, so socket 3 is registered while socket 2 is still
  open and carries her identity.
\<close>

theorem replaced_socket_left_open:
  "map_of (clients second_login) (Num 1) = Some 2 \<and>
   readyState (sockets second_login 0) = CLOSING \<and>
   map_of (clients third_login) (Num 1) = Some 3 \<and>
   userId (sockets third_login 3) = Some (Num 1) \<and>
   readyState (sockets third_login 3) = OPEN \<and>
   userId (sockets third_login 2) = Some (Num 1) \<and>
   readyState (sockets third_login 2) = OPEN"
  by code_simp

text \<open>The run is well formed: new sockets at every connection, frames on open sockets.\<close>

lemma third_login_run_ok:
  "events_ok (new_server demo_store)
     [Connection 0, Frame 5000 0 ''alice online'' (Some (demo_online 1)),
      Connection 1, Frame 5001 1 ''bob online'' (Some (demo_online 2)),
      Connection 2, Frame 5002 2 ''alice online again'' (Some (demo_online 1)),
      Close 6000 0,
      Connection 3, Frame 6001 3 ''alice online, third time'' (Some (demo_online 1))]"
  "third_login = run (new_server demo_store)
     [Connection 0, Frame 5000 0 ''alice online'' (Some (demo_online 1)),
      Connection 1, Frame 5001 1 ''bob online'' (Some (demo_online 2)),
      Connection 2, Frame 5002 2 ''alice online again'' (Some (demo_online 1)),
      Close 6000 0,
      Connection 3, Frame 6001 3 ''alice online, third time'' (Some (demo_online 1))]"
  by code_simp (simp add: third_login_def second_login_def both_online_def run_def)

subsection \<open>The registry in every run\<close>

text \<open>
  A server started on a store without a user 0 stays well formed under every well-formed
  list of events, each dispatched in a turn of its own, so the registries assumed above
  are the ones that occur in such runs.
\<close>

lemma heartbeat_loop:
  "clients (foldl (\<lambda>st ws.
              if \<not> isAlive (sockets st ws) then close_socket st ws
              else st\<lparr>sockets := (sockets st)(ws := (sockets st ws)\<lparr>isAlive := False\<rparr>)\<rparr>) st wss)
     = clients st \<and>
   storage (foldl (\<lambda>st ws.
              if \<not> isAlive (sockets st ws) then close_socket st ws
              else st\<lparr>sockets := (sockets st)(ws := (sockets st ws)\<lparr>isAlive := False\<rparr>)\<rparr>) st wss)
     = storage st \<and>
   wss_clients (foldl (\<lambda>st ws.
              if \<not> isAlive (sockets st ws) then close_socket st ws
              else st\<lparr>sockets := (sockets st)(ws := (sockets st ws)\<lparr>isAlive := False\<rparr>)\<rparr>) st wss)
     = wss_clients st \<and>
   userId (sockets (foldl (\<lambda>st ws.
              if \<not> isAlive (sockets st ws) then close_socket st ws
              else st\<lparr>sockets := (sockets st)(ws := (sockets st ws)\<lparr>isAlive := False\<rparr>)\<rparr>) st wss) c)
     = userId (sockets st c)"
  by (induction wss arbitrary: st) simp_all

lemma heartbeat_simps:
  "clients (heartbeat st) = clients st"
  "storage (heartbeat st) = storage st"
  "wss_clients (heartbeat st) = wss_clients st"
  "userId (sockets (heartbeat st) c) = userId (sockets st c)"
  using heartbeat_loop [of st "wss_clients st" c] by (simp_all add: heartbeat_def)

lemma no_user_zero_status:
  "getUser s 0 = None \<Longrightarrow> getUser (updateUserStatus_id s now u b) 0 = None"
  by (cases u) (auto simp: updateUserStatus_def getUser_def update_conv' split: option.split)

lemma server_ok_frame:
  assumes ok: "server_ok st" and ev: "ws \<in> set (wss_clients st)"
  shows "server_ok (on_message st now ws data parsed)"
proof (cases parsed)
  case None
  with ok show ?thesis by (simp add: on_message_def)
next
  case (Some m)
  from ok have rok: "registry_ok st" and z: "getUser (storage st) 0 = None"
    and conn: "\<forall>(u, c) \<in> set (clients st). c \<in> set (wss_clients st)"
    by (simp_all add: server_ok_def)
  have routed: "server_ok (process st' data m)" if "server_ok st'" for st'
    using that by (simp add: server_ok_def registry_ok_def)
  show ?thesis
  proof (cases "\<not> truthy (userId (sockets st ws)) \<and> type_ws m \<noteq> TEXT \<and>
      getUser_id (storage st) (senderId_ws m) \<noteq> None")
    case False
    with Some routed [OF ok] ok show ?thesis by (auto simp: on_message_def)
  next
    case True
    let ?U = "senderId_ws m"
    from True z have tr: "truthy (Some ?U)"
      by (cases ?U) (auto intro: ccontr)
    from True have known: "getUser_id (storage st) ?U \<noteq> None" and fresh: "\<not> truthy (userId (sockets st ws))"
      and ty: "type_ws m \<noteq> TEXT" by simp_all
    note bs = bind_step [OF rok tr known fresh ty refl, where now = now and data = data]
    from True Some have eq: "on_message st now ws data parsed = process (register st now ws m) data m"
      by (auto simp: on_message_def)
    have 1: "registry_ok (on_message st now ws data parsed)" using bs(1) Some by simp
    have 2: "getUser (storage (on_message st now ws data parsed)) 0 = None"
      using z by (simp add: eq register_simps no_user_zero_status)
    have 3: "\<forall>(u, c) \<in> set (clients (on_message st now ws data parsed)).
        c \<in> set (wss_clients (on_message st now ws data parsed))"
    proof (intro ballI, clarify)
      fix u c assume m: "(u, c) \<in> set (clients (on_message st now ws data parsed))"
      have w: "wss_clients (on_message st now ws data parsed) = wss_clients st"
        by (simp add: eq register_def Let_def close_socket_def split: option.split)
      from 1 m have "map_of (clients (on_message st now ws data parsed)) u = Some c"
        by (simp add: registry_ok_def)
      then have "(if u = ?U then Some ws else map_of (clients st) u) = Some c"
        by (simp add: eq register_simps update_conv')
      then have "c = ws \<or> (u, c) \<in> set (clients st)"
        by (auto split: if_splits dest: map_of_SomeD)
      with ev conn show "c \<in> set (wss_clients (on_message st now ws data parsed))"
        by (auto simp: w)
    qed
    from 1 2 3 show ?thesis by (simp add: server_ok_def)
  qed
qed

lemma server_ok_close:
  assumes ok: "server_ok st"
  shows "server_ok (on_close st now ws)"
proof -
  from ok have rok: "registry_ok st" and z: "getUser (storage st) 0 = None"
    and conn: "\<forall>(u, c) \<in> set (clients st). c \<in> set (wss_clients st)"
    by (simp_all add: server_ok_def)
  have other: "c \<noteq> ws" if "(v, c) \<in> set (clients st)" "userId (sockets st ws) \<noteq> Some v" for v c
    using rok that by (auto simp: registry_ok_def)
  show ?thesis
  proof (cases "truthy (userId (sockets st ws))")
    case False
    have "c \<noteq> ws" if "(v, c) \<in> set (clients st)" for v c
    proof -
      from rok that have "truthy (Some v)" by (auto simp: registry_ok_def)
      with False have "userId (sockets st ws) \<noteq> Some v" by auto
      with that show ?thesis by (rule other)
    qed
    with False rok z conn show ?thesis
      by (auto simp: on_close_def Let_def server_ok_def registry_ok_def)
  next
    case True
    then obtain a where a: "userId (sockets st ws) = Some a" "truthy (Some a)"
      by (cases "userId (sockets st ws)") auto
    have sub: "(v, c) \<in> set (clients st) \<and> v \<noteq> a" if "(v, c) \<in> set (AList.delete a (clients st))" for v c
      using that by (auto simp: AList.delete_eq)
    have 1: "registry_ok (on_close st now ws)"
      unfolding on_close_registered [OF a] registry_ok_def
    proof (intro conjI ballI)
      show "distinct (map fst (clients ((broadcast
          (st\<lparr>sockets := (sockets st)(ws := (sockets st ws)\<lparr>readyState := CLOSED\<rparr>),
              wss_clients := removeAll ws (wss_clients st),
              storage := updateUserStatus_id (storage st) now a False\<rparr>)
          a (Stringified (offlineMessage a)))\<lparr>clients := AList.delete a (clients st)\<rparr>)))"
        using rok by (simp add: registry_ok_def distinct_delete)
    next
      fix e assume "e \<in> set (clients ((broadcast
          (st\<lparr>sockets := (sockets st)(ws := (sockets st ws)\<lparr>readyState := CLOSED\<rparr>),
              wss_clients := removeAll ws (wss_clients st),
              storage := updateUserStatus_id (storage st) now a False\<rparr>)
          a (Stringified (offlineMessage a)))\<lparr>clients := AList.delete a (clients st)\<rparr>))"
      then have mem: "e \<in> set (AList.delete a (clients st))" by simp
      obtain v c where e0: "e = (v, c)" by (cases e)
      with mem have e: "e = (v, c)" "(v, c) \<in> set (AList.delete a (clients st))" by simp_all
      from sub [OF e(2)] rok have "userId (sockets st c) = Some v \<and> truthy (Some v)"
        by (auto simp: registry_ok_def)
      then show "case e of (u, c) \<Rightarrow>
          userId (sockets ((broadcast
          (st\<lparr>sockets := (sockets st)(ws := (sockets st ws)\<lparr>readyState := CLOSED\<rparr>),
              wss_clients := removeAll ws (wss_clients st),
              storage := updateUserStatus_id (storage st) now a False\<rparr>)
          a (Stringified (offlineMessage a)))\<lparr>clients := AList.delete a (clients st)\<rparr>) c) = Some u \<and>
          truthy (Some u)"
        by (auto simp: e)
    qed
    have 2: "getUser (storage (on_close st now ws)) 0 = None"
      using z by (simp add: on_close_registered [OF a] no_user_zero_status)
    have 3: "\<forall>(u, c) \<in> set (clients (on_close st now ws)). c \<in> set (wss_clients (on_close st now ws))"
    proof (intro ballI, clarify)
      fix v c assume "(v, c) \<in> set (clients (on_close st now ws))"
      then have "(v, c) \<in> set (AList.delete a (clients st))"
        by (simp add: on_close_registered [OF a])
      from sub [OF this] a(1) other [of v c] conn
      show "c \<in> set (wss_clients (on_close st now ws))"
        by (auto simp: on_close_registered [OF a])
    qed
    from 1 2 3 show ?thesis by (simp add: server_ok_def)
  qed
qed

lemma server_ok_step:
  assumes "server_ok st" and "event_ok st e"
  shows "server_ok (step st e)"
proof (cases e)
  case (Connection ws)
  with assms show ?thesis
    by (fastforce simp: server_ok_def registry_ok_def on_connection_def)
next
  case (Frame now ws data parsed)
  with assms show ?thesis by (simp add: server_ok_frame)
next
  case (Close now ws)
  with assms show ?thesis by (simp add: server_ok_close)
next
  case (Pong ws)
  with assms show ?thesis by (fastforce simp: server_ok_def registry_ok_def on_pong_def)
next
  case Heartbeat
  with assms show ?thesis by (simp add: server_ok_def registry_ok_def heartbeat_simps)
qed

lemma server_ok_new: "getUser s 0 = None \<Longrightarrow> server_ok (new_server s)"
  by (simp add: server_ok_def registry_ok_def new_server_def)

lemma server_ok_run: "server_ok st \<Longrightarrow> events_ok st evs \<Longrightarrow> server_ok (run st evs)"
  unfolding run_def by (induction evs arbitrary: st) (simp_all add: server_ok_step)

lemma no_user_zero: "getUser new_store 0 = None"
  by (simp add: getUser_def new_store_def)

lemma no_user_zero_createUser:
  "getUser s 0 = None \<Longrightarrow> 0 < currentUserId s \<Longrightarrow>
   getUser (fst (createUser s now iu)) 0 = None \<and> 0 < currentUserId (fst (createUser s now iu))"
  by (simp add: createUser_def Let_def getUser_def update_conv')

end
